theory Spec2Isabelle
  imports
    Main
    "HOL-Library.AList"
    "HOL-Library.Multiset"
    "HOL-Library.Char_ord"
    "HOL-Library.List_Lexorder"
    "HOL-Library.Product_Lexorder"
begin

section \<open>The compression core of compress.ts\<close>

text \<open>
  The codec of \<^verbatim>\<open>compress.ts\<close> (\<^verbatim>\<open>rowsToV1\<close>, \<^verbatim>\<open>v1ToV2IfPossible\<close>,
  \<^verbatim>\<open>compactFromRows\<close>, \<^verbatim>\<open>expandCompact\<close>, \<^verbatim>\<open>queryOneCompact\<close>) as HOL functions.

  Numbers are \<^typ>\<open>int\<close>: every number the codec handles is a tile coordinate, an
  identifier or a count, and the model covers integer inputs (no \<^verbatim>\<open>NaN\<close>, no fractions,
  no \<^verbatim>\<open>-0\<close>). Field names carry a prefix, since a record field is a global constant
  (\<^verbatim>\<open>r.id\<close> is \<open>r_id\<close>, \<^verbatim>\<open>entry.xs\<close> is \<open>e_xs\<close>, \<^verbatim>\<open>blob.seq\<close> is \<open>v2_seq\<close>).
\<close>

subsection \<open>Data\<close>

record Coord =
  tileX :: int
  tileY :: int

text \<open>\<^verbatim>\<open>RawRow\<close>; the further fields its index signature allows are never read.\<close>

record RawRow =
  r_id :: int
  r_cityId :: int
  r_name :: string
  r_number :: int
  r_countryId :: int
  r_coord :: Coord

record V1Entry =
  e_id :: int
  e_n :: int
  e_y :: int
  e_xs :: int
  e_xe :: int

record V1Blob =
  v1_c :: int
  v1_n :: string
  v1_id :: int
  v1_e :: "V1Entry list"

record V2Run =
  run_x0 :: int
  run_k :: int
  run_id0 :: int
  run_n0 :: int

record V2Blob =
  v2_c :: int
  v2_n :: string
  v2_id :: int
  v2_y :: int
  v2_s :: int
  v2_seq :: "V2Run list"

text \<open>
  A blob as the decoder and the resolver meet it at run time, after \<^verbatim>\<open>JSON.parse\<close>: they
  look at two things only, whether \<^verbatim>\<open>seq\<close> is an array and whether \<^verbatim>\<open>e\<close> is an array.
  \<open>V1\<close> and \<open>V2\<close> are the two shapes the encoder writes, \<open>Both\<close> is an object with the
  fields of a \<^verbatim>\<open>V2Blob\<close> and an array \<^verbatim>\<open>e\<close> besides, \<open>Other\<close> is any value with neither
  array.
\<close>

datatype Blob = V1 V1Blob | V2 V2Blob | Both V2Blob "V1Entry list" | Other

text \<open>\<^verbatim>\<open>Compact = V1Blob | V2Blob | (V1Blob | V2Blob)[]\<close>.\<close>

datatype Compact = Single Blob | Many "Blob list"

datatype error = UnknownShape | TypeError

subsection \<open>Sorting with a comparator\<close>

text \<open>
  \<^verbatim>\<open>Array.prototype.sort\<close> with a comparator is a stable sort, whenever the comparator
  is consistent (it orders the elements, ties allowed). Every comparator of the
  codec is a chain \<^verbatim>\<open>a.f - b.f || a.g - b.g || ...\<close>; \<^verbatim>\<open>||\<close> on numbers yields its left
  operand unless that is zero.
\<close>

fun insort_by :: "('a \<Rightarrow> 'a \<Rightarrow> int) \<Rightarrow> 'a \<Rightarrow> 'a list \<Rightarrow> 'a list" where
  "insort_by cmp x [] = [x]"
| "insort_by cmp x (y # ys) = (if cmp x y \<le> 0 then x # y # ys else y # insort_by cmp x ys)"

definition sort_by :: "('a \<Rightarrow> 'a \<Rightarrow> int) \<Rightarrow> 'a list \<Rightarrow> 'a list" where
  "sort_by cmp xs = foldr (insort_by cmp) xs []"

definition js_or :: "int \<Rightarrow> int \<Rightarrow> int" where
  "js_or a b = (if a = 0 then b else a)"

text \<open>
  \<^verbatim>\<open>String.prototype.localeCompare\<close> is the collation of the host, not code of the program:
  it puts \<^verbatim>\<open>a\<close> before \<^verbatim>\<open>B\<close>, and it holds some different names equal (a name with a
  control character in it and the name without). Every function that compares names takes
  the collation as its parameter \<open>lc\<close>; \<open>lc a b\<close> is \<^verbatim>\<open>a.localeCompare(b)\<close>.
\<close>

definition cmp_num :: "int \<Rightarrow> int \<Rightarrow> int" where
  "cmp_num a b = a - b"

definition cmp_entry :: "V1Entry \<Rightarrow> V1Entry \<Rightarrow> int" where
  "cmp_entry a b =
     js_or (e_id a - e_id b) (js_or (e_n a - e_n b) (js_or (e_y a - e_y b)
       (js_or (e_xs a - e_xs b) (e_xe a - e_xe b))))"

definition cmp_blob :: "(string \<Rightarrow> string \<Rightarrow> int) \<Rightarrow> V1Blob \<Rightarrow> V1Blob \<Rightarrow> int" where
  "cmp_blob lc a b =
     js_or (v1_c a - v1_c b) (js_or (v1_id a - v1_id b) (lc (v1_n a) (v1_n b)))"

definition cmp_xs :: "V1Entry \<Rightarrow> V1Entry \<Rightarrow> int" where
  "cmp_xs a b = e_xs a - e_xs b"

definition cmp_row :: "(string \<Rightarrow> string \<Rightarrow> int) \<Rightarrow> RawRow \<Rightarrow> RawRow \<Rightarrow> int" where
  "cmp_row lc a b =
     js_or (r_cityId a - r_cityId b) (js_or (r_countryId a - r_countryId b)
       (js_or (lc (r_name a) (r_name b))
         (js_or (tileY (r_coord a) - tileY (r_coord b))
           (js_or (tileX (r_coord a) - tileX (r_coord b))
             (js_or (r_id a - r_id b) (r_number a - r_number b))))))"

subsection \<open>rowsToV1\<close>

text \<open>
  The two \<^verbatim>\<open>Map\<close>s are association lists in insertion order: \<^verbatim>\<open>get\<close> is \<^const>\<open>map_of\<close>,
  \<^verbatim>\<open>set\<close> is \<^const>\<open>AList.update\<close> (in place for a key that is there, at the end for a
  new one). The keys are the texts \<^verbatim>\<open>`${cityId}|${name}|${countryId}`\<close> and
  \<^verbatim>\<open>`${id}|${number}|${tileY}`\<close>. A number prints without \<^verbatim>\<open>|\<close>, so the first text
  determines its three parts (the first and the last \<^verbatim>\<open>|\<close> delimit the name), and the
  three numbers read back from the second text by \<^verbatim>\<open>split\<close> and \<^verbatim>\<open>Number\<close> are the
  numbers printed: the model keeps the triples themselves as keys. The last sections
  prove both facts, and that the loop with the texts as keys builds the same groups.
\<close>

type_synonym metaKey = "int \<times> string \<times> int"
type_synonym subKey = "int \<times> int \<times> int"

record Group =
  g_c :: int
  g_n :: string
  g_id :: int
  bucket :: "(subKey \<times> int list) list"

definition metaKey_of :: "RawRow \<Rightarrow> metaKey" where
  "metaKey_of r = (r_cityId r, r_name r, r_countryId r)"

definition subKey_of :: "RawRow \<Rightarrow> subKey" where
  "subKey_of r = (r_id r, r_number r, tileY (r_coord r))"

text \<open>One turn of the first loop (lines 102 to 113).\<close>

definition add_row :: "(metaKey \<times> Group) list \<Rightarrow> RawRow \<Rightarrow> (metaKey \<times> Group) list" where
  "add_row groups r =
     (let metaKey = metaKey_of r;
          g = (case map_of groups metaKey of
                 Some g \<Rightarrow> g
               | None \<Rightarrow> \<lparr>g_c = r_cityId r, g_n = r_name r, g_id = r_countryId r, bucket = []\<rparr>);
          key = subKey_of r;
          arr = (case map_of (bucket g) key of Some a \<Rightarrow> a | None \<Rightarrow> [])
      in AList.update metaKey (g\<lparr>bucket := AList.update key (arr @ [tileX (r_coord r)]) (bucket g)\<rparr>)
           groups)"

text \<open>
  The run-merging loop (lines 125 to 137) over the sorted columns: \<open>start\<close> and \<open>prev\<close>
  are the loop's variables, the list is what is left of \<^verbatim>\<open>xs\<close>. An empty \<^verbatim>\<open>xs\<close> leaves
  \<^verbatim>\<open>start\<close> undefined and pushes nothing.
\<close>

fun merge_loop :: "int \<Rightarrow> int \<Rightarrow> int list \<Rightarrow> (int \<times> int) list" where
  "merge_loop start prev [] = [(start, prev)]"
| "merge_loop start prev (cur # rest) =
     (if cur = prev + 1 then merge_loop start cur rest
      else (start, prev) # merge_loop cur cur rest)"

definition merge_runs :: "int list \<Rightarrow> (int \<times> int) list" where
  "merge_runs xs = (case xs of [] \<Rightarrow> [] | x # rest \<Rightarrow> merge_loop x x rest)"

definition bucket_entries :: "subKey \<times> int list \<Rightarrow> V1Entry list" where
  "bucket_entries kx =
     (case kx of ((rid, n, y), xsArr) \<Rightarrow>
        map (\<lambda>(start, prev). \<lparr>e_id = rid, e_n = n, e_y = y, e_xs = start, e_xe = prev\<rparr>)
          (merge_runs (sort_by cmp_num xsArr)))"

definition group_blob :: "Group \<Rightarrow> V1Blob" where
  "group_blob g =
     \<lparr>v1_c = g_c g, v1_n = g_n g, v1_id = g_id g,
      v1_e = sort_by cmp_entry (concat (map bucket_entries (bucket g)))\<rparr>"

definition rowsToV1 :: "(string \<Rightarrow> string \<Rightarrow> int) \<Rightarrow> RawRow list \<Rightarrow> V1Blob list" where
  "rowsToV1 lc rows = sort_by (cmp_blob lc) (map (group_blob \<circ> snd) (foldl add_row [] rows))"

subsection \<open>v1ToV2IfPossible\<close>

text \<open>The checking loop (lines 150 to 153); \<open>False\<close> is its \<^verbatim>\<open>return null\<close>.\<close>

fun entries_ok :: "int \<Rightarrow> int \<Rightarrow> V1Entry list \<Rightarrow> bool" where
  "entries_ok y s [] = True"
| "entries_ok y s (e # es) =
     (if e_y e \<noteq> y then False
      else if e_xe e - e_xs e + 1 \<noteq> s then False
      else entries_ok y s es)"

text \<open>
  \<^verbatim>\<open>flush\<close> returns the run it pushes. Both calls pass indices inside \<^verbatim>\<open>es\<close>
  (\<open>runStartIdx < i \<le> length es\<close>, and \<^verbatim>\<open>es\<close> is not empty at the last call).
\<close>

definition flush :: "V1Entry list \<Rightarrow> nat \<Rightarrow> nat \<Rightarrow> V2Run" where
  "flush es fromIdx toIdx =
     (let first = es ! fromIdx;
          k = int toIdx - int fromIdx + 1
      in \<lparr>run_x0 = e_xs first, run_k = k, run_id0 = e_id first, run_n0 = e_n first\<rparr>)"

text \<open>The loop of lines 164 to 174, from index \<open>i\<close> on; it returns \<^verbatim>\<open>runStartIdx\<close> and \<^verbatim>\<open>runs\<close>.\<close>

function run_loop :: "int \<Rightarrow> V1Entry list \<Rightarrow> nat \<Rightarrow> nat \<Rightarrow> V2Run list \<Rightarrow> nat \<times> V2Run list" where
  "run_loop s es i runStartIdx runs =
     (if i < length es then
        (if \<not> (e_xs (es ! i) = e_xs (es ! (i - 1)) + s
                \<and> e_id (es ! i) = e_id (es ! (i - 1)) + 1
                \<and> e_n (es ! i) = e_n (es ! (i - 1)) + 1)
         then run_loop s es (i + 1) i (runs @ [flush es runStartIdx (i - 1)])
         else run_loop s es (i + 1) runStartIdx runs)
      else (runStartIdx, runs))"
  by pat_completeness auto
termination
  by (relation "measure (\<lambda>(s, es, i, runStartIdx, runs). length es - i)") auto

declare run_loop.simps [simp del]

definition v2_runs :: "int \<Rightarrow> V1Entry list \<Rightarrow> V2Run list" where
  "v2_runs s es =
     (case run_loop s es 1 0 [] of
        (runStartIdx, runs) \<Rightarrow> runs @ [flush es runStartIdx (length es - 1)])"

definition v1ToV2IfPossible :: "V1Blob \<Rightarrow> int \<Rightarrow> V2Blob option" where
  "v1ToV2IfPossible v1 s =
     (case v1_e v1 of
        [] \<Rightarrow> Some \<lparr>v2_c = v1_c v1, v2_n = v1_n v1, v2_id = v1_id v1, v2_y = 0, v2_s = s, v2_seq = []\<rparr>
      | e0 # _ \<Rightarrow>
          (let y = e_y e0 in
           if \<not> entries_ok y s (v1_e v1) then None
           else
             (let es = sort_by cmp_xs (v1_e v1);
                  runs = v2_runs s es
              in if length runs = 1 \<or> length runs * 2 \<le> length (v1_e v1)
                 then Some \<lparr>v2_c = v1_c v1, v2_n = v1_n v1, v2_id = v1_id v1,
                            v2_y = y, v2_s = s, v2_seq = runs\<rparr>
                 else None)))"

subsection \<open>compactFromRows\<close>

definition compactFromRows :: "(string \<Rightarrow> string \<Rightarrow> int) \<Rightarrow> RawRow list \<Rightarrow> int \<Rightarrow> Blob list" where
  "compactFromRows lc rows preferS =
     map (\<lambda>b. case v1ToV2IfPossible b preferS of Some v2 \<Rightarrow> V2 v2 | None \<Rightarrow> V1 b)
       (rowsToV1 lc rows)"

text \<open>The value \<^verbatim>\<open>doCompressFile\<close> writes: the blob itself when there is exactly one.\<close>

definition payload :: "Blob list \<Rightarrow> Compact" where
  "payload compact = (case compact of [b] \<Rightarrow> Single b | _ \<Rightarrow> Many compact)"

subsection \<open>expandCompact\<close>

text \<open>
  The two type guards: \<^verbatim>\<open>isV2\<close> holds when \<^verbatim>\<open>seq\<close> is an array, \<^verbatim>\<open>isV1\<close> when \<^verbatim>\<open>e\<close>
  is; each returns the blob as the guard's type sees it (\<open>None\<close> is \<^verbatim>\<open>false\<close>).
\<close>

fun isV2 :: "Blob \<Rightarrow> V2Blob option" where
  "isV2 (V2 b) = Some b"
| "isV2 (Both b es) = Some b"
| "isV2 (V1 b) = None"
| "isV2 Other = None"

fun isV1 :: "Blob \<Rightarrow> V1Blob option" where
  "isV1 (V1 b) = Some b"
| "isV1 (Both b es) = Some \<lparr>v1_c = v2_c b, v1_n = v2_n b, v1_id = v2_id b, v1_e = es\<rparr>"
| "isV1 (V2 b) = None"
| "isV1 Other = None"

definition to_array :: "Compact \<Rightarrow> Blob list" where
  "to_array compact = (case compact of Many arr \<Rightarrow> arr | Single b \<Rightarrow> [b])"

definition v2_rows :: "V2Blob \<Rightarrow> RawRow list" where
  "v2_rows blob =
     concat (map (\<lambda>r.
       concat (map (\<lambda>i.
         (let xs = run_x0 r + i * v2_s blob;
              xe = xs + (v2_s blob - 1)
          in map (\<lambda>x. \<lparr>r_id = run_id0 r + i, r_cityId = v2_c blob, r_name = v2_n blob,
                        r_number = run_n0 r + i, r_countryId = v2_id blob,
                        r_coord = \<lparr>tileX = x, tileY = v2_y blob\<rparr>\<rparr>) [xs..xe]))
         [0..run_k r - 1]))
       (v2_seq blob))"

definition v1_rows :: "V1Blob \<Rightarrow> RawRow list" where
  "v1_rows blob =
     concat (map (\<lambda>entry.
       map (\<lambda>x. \<lparr>r_id = e_id entry, r_cityId = v1_c blob, r_name = v1_n blob,
                  r_number = e_n entry, r_countryId = v1_id blob,
                  r_coord = \<lparr>tileX = x, tileY = e_y entry\<rparr>\<rparr>) [e_xs entry..e_xe entry])
       (v1_e blob))"

fun expand_loop :: "RawRow list \<Rightarrow> Blob list \<Rightarrow> error + RawRow list" where
  "expand_loop rows [] = Inr rows"
| "expand_loop rows (blob # arr) =
     (case isV2 blob of
        Some b \<Rightarrow> expand_loop (rows @ v2_rows b) arr
      | None \<Rightarrow>
          (case isV1 blob of
             Some b \<Rightarrow> expand_loop (rows @ v1_rows b) arr
           | None \<Rightarrow> Inl UnknownShape))"

definition expandCompact :: "(string \<Rightarrow> string \<Rightarrow> int) \<Rightarrow> Compact \<Rightarrow> error + RawRow list" where
  "expandCompact lc compact =
     (case expand_loop [] (to_array compact) of
        Inl err \<Rightarrow> Inl err
      | Inr rows \<Rightarrow> Inr (sort_by (cmp_row lc) rows))"

subsection \<open>queryOneCompact\<close>

record Hit =
  h_cityId :: int
  h_name :: string
  h_countryId :: int
  h_id :: int
  h_number :: int
  h_y :: int
  h_xs :: int
  h_xe :: int
  h_format :: string

text \<open>
  The loop over \<^verbatim>\<open>blob.seq\<close>; \<open>None\<close> is falling out of the loop. With \<^verbatim>\<open>s = 0\<close> the
  quotient \<^verbatim>\<open>dx / s\<close> is \<^verbatim>\<open>Infinity\<close> (skipped by \<^verbatim>\<open>q >= r.k\<close>) or \<^verbatim>\<open>NaN\<close> (no
  comparison with it holds), so the run gives no hit; for every other \<^verbatim>\<open>s\<close>,
  \<^verbatim>\<open>Math.floor(dx / s)\<close> is \<open>dx div s\<close>.
\<close>

fun query_runs :: "V2Blob \<Rightarrow> int \<Rightarrow> int \<Rightarrow> V2Run list \<Rightarrow> Hit option" where
  "query_runs blob x y [] = None"
| "query_runs blob x y (r # rs) =
     (if x < run_x0 r then query_runs blob x y rs
      else if v2_s blob = 0 then query_runs blob x y rs
      else
        (let dx = x - run_x0 r;
             q = dx div v2_s blob
         in if q < 0 \<or> q \<ge> run_k r then query_runs blob x y rs
            else
              (let xs = run_x0 r + q * v2_s blob;
                   xe = xs + (v2_s blob - 1)
               in if x \<ge> xs \<and> x \<le> xe
                  then Some \<lparr>h_cityId = v2_c blob, h_name = v2_n blob, h_countryId = v2_id blob,
                             h_id = run_id0 r + q, h_number = run_n0 r + q, h_y = y,
                             h_xs = xs, h_xe = xe, h_format = ''V2''\<rparr>
                  else query_runs blob x y rs)))"

fun query_entries :: "V1Blob \<Rightarrow> int \<Rightarrow> int \<Rightarrow> V1Entry list \<Rightarrow> Hit option" where
  "query_entries blob x y [] = None"
| "query_entries blob x y (e # es) =
     (if e_y e \<noteq> y then query_entries blob x y es
      else if x \<ge> e_xs e \<and> x \<le> e_xe e
      then Some \<lparr>h_cityId = v1_c blob, h_name = v1_n blob, h_countryId = v1_id blob,
                 h_id = e_id e, h_number = e_n e, h_y = e_y e,
                 h_xs = e_xs e, h_xe = e_xe e, h_format = ''V1''\<rparr>
      else query_entries blob x y es)"

text \<open>The loop over the blobs; it has no \<^verbatim>\<open>else\<close> branch and no \<^verbatim>\<open>throw\<close>.\<close>

fun query_loop :: "Blob list \<Rightarrow> int \<Rightarrow> int \<Rightarrow> Hit option" where
  "query_loop [] x y = None"
| "query_loop (blob # arr) x y =
     (case isV2 blob of
        Some b \<Rightarrow>
          (if y \<noteq> v2_y b then query_loop arr x y
           else (case query_runs b x y (v2_seq b) of
                   Some hit \<Rightarrow> Some hit
                 | None \<Rightarrow> query_loop arr x y))
      | None \<Rightarrow>
          (case isV1 blob of
             Some b \<Rightarrow>
               (case query_entries b x y (v1_e b) of
                  Some hit \<Rightarrow> Some hit
                | None \<Rightarrow> query_loop arr x y)
           | None \<Rightarrow> query_loop arr x y))"

definition queryOneCompact :: "Compact \<Rightarrow> int \<Rightarrow> int \<Rightarrow> Hit option" where
  "queryOneCompact compact x y = query_loop (to_array compact) x y"

subsection \<open>The grouping loop on rows as they are read\<close>

text \<open>
  The first loop of \<^verbatim>\<open>rowsToV1\<close> on the rows as \<^verbatim>\<open>readJSONL\<close> delivers them.
  \<^verbatim>\<open>readJSONL\<close> pushes \<^verbatim>\<open>JSON.parse(line)\<close> and checks no field, so a row may lack any
  of them: a field that is absent is \<open>None\<close> (\<^verbatim>\<open>undefined\<close> when read), a field that is
  there holds a value of its type. Here the keys are the texts the template literals
  build; \<^verbatim>\<open>${undefined}\<close> is the text \<^verbatim>\<open>undefined\<close>.
\<close>

record JCoord =
  j_tileX :: "int option"
  j_tileY :: "int option"

record JRow =
  j_id :: "int option"
  j_cityId :: "int option"
  j_name :: "string option"
  j_number :: "int option"
  j_countryId :: "int option"
  j_coord :: "JCoord option"

record JGroup =
  jg_c :: "int option"
  jg_n :: "string option"
  jg_id :: "int option"
  jg_bucket :: "(string \<times> int option list) list"

text \<open>The decimal text of an integer, as a template literal prints it.\<close>

fun show_nat :: "nat \<Rightarrow> string" where
  "show_nat n =
     (if n < 10 then [''0123456789'' ! n]
      else show_nat (n div 10) @ [''0123456789'' ! (n mod 10)])"

declare show_nat.simps [simp del]

definition show_int :: "int \<Rightarrow> string" where
  "show_int i = (if i < 0 then CHR ''-'' # show_nat (nat (- i)) else show_nat (nat i))"

definition num_text :: "int option \<Rightarrow> string" where
  "num_text v = (case v of None \<Rightarrow> ''undefined'' | Some i \<Rightarrow> show_int i)"

definition str_text :: "string option \<Rightarrow> string" where
  "str_text v = (case v of None \<Rightarrow> ''undefined'' | Some s \<Rightarrow> s)"

definition metaKey_js :: "JRow \<Rightarrow> string" where
  "metaKey_js r = num_text (j_cityId r) @ ''|'' @ str_text (j_name r) @ ''|'' @ num_text (j_countryId r)"

text \<open>
  One turn of the loop. Reading \<^verbatim>\<open>r.coord.tileY\<close> of a row without \<^verbatim>\<open>coord\<close> throws a
  \<^verbatim>\<open>TypeError\<close>; nothing else in the loop throws.
\<close>

definition add_row_js :: "(string \<times> JGroup) list \<Rightarrow> JRow \<Rightarrow> error + (string \<times> JGroup) list" where
  "add_row_js groups r =
     (let metaKey = metaKey_js r;
          g = (case map_of groups metaKey of
                 Some g \<Rightarrow> g
               | None \<Rightarrow> \<lparr>jg_c = j_cityId r, jg_n = j_name r, jg_id = j_countryId r, jg_bucket = []\<rparr>)
      in case j_coord r of
           None \<Rightarrow> Inl TypeError
         | Some coord \<Rightarrow>
             (let key = num_text (j_id r) @ ''|'' @ num_text (j_number r) @ ''|''
                          @ num_text (j_tileY coord);
                  arr = (case map_of (jg_bucket g) key of Some a \<Rightarrow> a | None \<Rightarrow> [])
              in Inr (AList.update metaKey
                        (g\<lparr>jg_bucket := AList.update key (arr @ [j_tileX coord]) (jg_bucket g)\<rparr>)
                        groups)))"

fun group_loop_js :: "(string \<times> JGroup) list \<Rightarrow> JRow list \<Rightarrow> error + (string \<times> JGroup) list" where
  "group_loop_js groups [] = Inr groups"
| "group_loop_js groups (r # rows) =
     (case add_row_js groups r of
        Inl err \<Rightarrow> Inl err
      | Inr groups' \<Rightarrow> group_loop_js groups' rows)"

section \<open>Definitions for the proofs\<close>

definition entry_key :: "V1Entry \<Rightarrow> int \<times> int \<times> int \<times> int \<times> int" where
  "entry_key a = (e_id a, e_n a, e_y a, e_xs a, e_xe a)"

text \<open>
  What the proofs ask of a collation: it compares two names by comparing their sort keys,
  in some linear order. Names with the same sort key are the names it holds equal.
\<close>

definition collates :: "(string \<Rightarrow> string \<Rightarrow> int) \<Rightarrow> (string \<Rightarrow> 'k::linorder) \<Rightarrow> bool" where
  "collates lc key = (\<forall>a b. (lc a b < 0) = (key a < key b) \<and> (lc a b = 0) = (key a = key b))"


definition canonical_key :: "(string \<Rightarrow> 'k) \<Rightarrow> RawRow \<Rightarrow> int \<times> int \<times> 'k \<times> int \<times> int \<times> int \<times> int" where
  "canonical_key key r =
     (r_cityId r, r_countryId r, key (r_name r), tileY (r_coord r), tileX (r_coord r), r_id r,
      r_number r)"

text \<open>
  Two collations for the examples: the order of the character codes, which holds no two
  different names equal, and that order on the names without their control characters,
  which holds \<^verbatim>\<open>A\<close> and \<^verbatim>\<open>A\u0001\<close> equal as the host's collation does.
\<close>

definition codepoint_collation :: "string \<Rightarrow> string \<Rightarrow> int" where
  "codepoint_collation a b = (if a < b then - 1 else if a = b then 0 else 1)"

definition drop_controls :: "string \<Rightarrow> string" where
  "drop_controls a = filter (\<lambda>c. CHR 0x20 \<le> c) a"

definition ignoring_collation :: "string \<Rightarrow> string \<Rightarrow> int" where
  "ignoring_collation a b = codepoint_collation (drop_controls a) (drop_controls b)"

text \<open>A record of the group \<open>(1, ''A'', 9)\<close>, for the examples.\<close>

definition sample_row :: "int \<Rightarrow> int \<Rightarrow> int \<Rightarrow> int \<Rightarrow> RawRow" where
  "sample_row i num x y =
     \<lparr>r_id = i, r_cityId = 1, r_name = ''A'', r_number = num, r_countryId = 9,
      r_coord = \<lparr>tileX = x, tileY = y\<rparr>\<rparr>"

text \<open>A record at \<open>(x, 5)\<close> with the given name, the other fields fixed.\<close>

definition named_row :: "string \<Rightarrow> int \<Rightarrow> RawRow" where
  "named_row name x =
     \<lparr>r_id = 1, r_cityId = 1, r_name = name, r_number = 1, r_countryId = 9,
      r_coord = \<lparr>tileX = x, tileY = 5\<rparr>\<rparr>"

definition entry_rows :: "int \<Rightarrow> string \<Rightarrow> int \<Rightarrow> V1Entry \<Rightarrow> RawRow list" where
  "entry_rows c n cid entry =
     map (\<lambda>x. \<lparr>r_id = e_id entry, r_cityId = c, r_name = n, r_number = e_n entry,
                r_countryId = cid, r_coord = \<lparr>tileX = x, tileY = e_y entry\<rparr>\<rparr>)
       [e_xs entry..e_xe entry]"

definition key_row :: "int \<Rightarrow> string \<Rightarrow> int \<Rightarrow> subKey \<Rightarrow> int \<Rightarrow> RawRow" where
  "key_row c n cid sk x =
     (case sk of (rid, num, y) \<Rightarrow>
        \<lparr>r_id = rid, r_cityId = c, r_name = n, r_number = num, r_countryId = cid,
         r_coord = \<lparr>tileX = x, tileY = y\<rparr>\<rparr>)"

definition group_rows :: "Group \<Rightarrow> RawRow list" where
  "group_rows g =
     concat (map (\<lambda>(sk, xs). map (key_row (g_c g) (g_n g) (g_id g) sk) xs) (bucket g))"

definition groups_ok :: "(metaKey \<times> Group) list \<Rightarrow> bool" where
  "groups_ok groups = (\<forall>(mk, g) \<in> set groups. mk = (g_c g, g_n g, g_id g))"

text \<open>The runs of a progression, by recursion on the entries.\<close>

definition step_ok :: "int \<Rightarrow> V1Entry \<Rightarrow> V1Entry \<Rightarrow> bool" where
  "step_ok s prev cur =
     (e_xs cur = e_xs prev + s \<and> e_id cur = e_id prev + 1 \<and> e_n cur = e_n prev + 1)"

fun runs_from :: "int \<Rightarrow> V1Entry \<Rightarrow> int \<Rightarrow> V1Entry \<Rightarrow> V1Entry list \<Rightarrow> V2Run list" where
  "runs_from s first k prev [] =
     [\<lparr>run_x0 = e_xs first, run_k = k, run_id0 = e_id first, run_n0 = e_n first\<rparr>]"
| "runs_from s first k prev (cur # rest) =
     (if step_ok s prev cur then runs_from s first (k + 1) cur rest
      else \<lparr>run_x0 = e_xs first, run_k = k, run_id0 = e_id first, run_n0 = e_n first\<rparr>
             # runs_from s cur 1 cur rest)"

definition run_rows :: "int \<Rightarrow> string \<Rightarrow> int \<Rightarrow> int \<Rightarrow> int \<Rightarrow> V2Run \<Rightarrow> RawRow list" where
  "run_rows c n cid y s r =
     concat (map (\<lambda>i.
       map (\<lambda>x. \<lparr>r_id = run_id0 r + i, r_cityId = c, r_name = n, r_number = run_n0 r + i,
                  r_countryId = cid, r_coord = \<lparr>tileX = x, tileY = y\<rparr>\<rparr>)
         [run_x0 r + i * s..run_x0 r + i * s + (s - 1)])
       [0..run_k r - 1])"

definition blob_rows :: "Blob \<Rightarrow> RawRow list" where
  "blob_rows blob =
     (case isV2 blob of
        Some b \<Rightarrow> v2_rows b
      | None \<Rightarrow> (case isV1 blob of Some b \<Rightarrow> v1_rows b | None \<Rightarrow> []))"

text \<open>
  The run count in the words of the specification: walking the entries sorted by
  \<open>xStart\<close>, a new run starts at every step that is not a progression step, so the
  runs are one more than those steps.
\<close>

definition run_count :: "int \<Rightarrow> V1Entry list \<Rightarrow> nat" where
  "run_count s es = Suc (length (filter (\<lambda>(prev, cur). \<not> step_ok s prev cur) (zip es (tl es))))"











text \<open>The two key texts of a row with every field, and such a row as \<^verbatim>\<open>readJSONL\<close> delivers it.\<close>

definition metaKey_text :: "metaKey \<Rightarrow> string" where
  "metaKey_text mk = (case mk of (c, n, cid) \<Rightarrow> show_int c @ ''|'' @ n @ ''|'' @ show_int cid)"

definition subKey_text :: "subKey \<Rightarrow> string" where
  "subKey_text sk = (case sk of (rid, num, y) \<Rightarrow> show_int rid @ ''|'' @ show_int num @ ''|'' @ show_int y)"

definition to_js :: "RawRow \<Rightarrow> JRow" where
  "to_js r =
     \<lparr>j_id = Some (r_id r), j_cityId = Some (r_cityId r), j_name = Some (r_name r),
      j_number = Some (r_number r), j_countryId = Some (r_countryId r),
      j_coord = Some \<lparr>j_tileX = Some (tileX (r_coord r)), j_tileY = Some (tileY (r_coord r))\<rparr>\<rparr>"

definition bucket_js :: "(subKey \<times> int list) list \<Rightarrow> (string \<times> int option list) list" where
  "bucket_js b = map (\<lambda>p. (subKey_text (fst p), map Some (snd p))) b"

definition Group_js :: "Group \<Rightarrow> JGroup" where
  "Group_js g =
     \<lparr>jg_c = Some (g_c g), jg_n = Some (g_n g), jg_id = Some (g_id g),
      jg_bucket = bucket_js (bucket g)\<rparr>"

definition group_js :: "metaKey \<times> Group \<Rightarrow> string \<times> JGroup" where
  "group_js p = (metaKey_text (fst p), Group_js (snd p))"

text \<open>
  \<^verbatim>\<open>k.split("|")\<close> and \<^verbatim>\<open>Number\<close> on a decimal text, which lines 119 to 122 apply to the
  sub-key.
\<close>

fun split_bar :: "string \<Rightarrow> string list" where
  "split_bar [] = [[]]"
| "split_bar (c # cs) =
     (if c = CHR ''|'' then [] # split_bar cs
      else (case split_bar cs of [] \<Rightarrow> [[c]] | w # ws \<Rightarrow> (c # w) # ws))"

definition digit_val :: "char \<Rightarrow> nat" where
  "digit_val c = length (takeWhile (\<lambda>d. d \<noteq> c) ''0123456789'')"

definition read_nat :: "string \<Rightarrow> nat" where
  "read_nat s = foldl (\<lambda>acc c. 10 * acc + digit_val c) 0 s"

definition number_of :: "string \<Rightarrow> int" where
  "number_of s = (case s of [] \<Rightarrow> 0 | c # cs \<Rightarrow> if c = CHR ''-'' then - int (read_nat cs) else int (read_nat s))"

section \<open>Comparators and sort keys\<close>

lemma mset_insort_by: "mset (insort_by cmp x ys) = add_mset x (mset ys)"
  by (induction ys) simp_all

lemma mset_sort_by: "mset (sort_by cmp xs) = mset xs"
  unfolding sort_by_def by (induction xs) (simp_all add: mset_insort_by)

lemma set_sort_by: "set (sort_by cmp xs) = set xs"
  using mset_sort_by [of cmp xs] by (rule mset_eq_setD)

lemma insort_by_key:
  assumes "\<And>a b. (cmp a b \<le> 0) = (f a \<le> f b)"
  shows "insort_by cmp x ys = insort_key f x ys"
  by (induction ys) (simp_all add: assms)

lemma sort_by_key:
  assumes "\<And>a b. (cmp a b \<le> 0) = (f a \<le> f b)"
  shows "sort_by cmp xs = sort_key f xs"
  unfolding sort_by_def by (induction xs) (simp_all add: insort_by_key [OF assms])

lemma js_or_le: "(js_or (a - b) c \<le> 0) = (a < b \<or> a \<le> b \<and> c \<le> 0)"
  for a b :: int
  by (auto simp: js_or_def)


lemma js_or_lc_le:
  assumes "collates lc key"
  shows "(js_or (lc a b) c \<le> 0) = (key a < key b \<or> key a \<le> key b \<and> c \<le> 0)"
proof -
  have "(js_or (lc a b) c \<le> 0) = (lc a b < 0 \<or> lc a b = 0 \<and> c \<le> 0)"
    by (auto simp: js_or_def)
  also have "\<dots> = (key a < key b \<or> key a = key b \<and> c \<le> 0)"
    using assms by (simp add: collates_def)
  also have "\<dots> = (key a < key b \<or> key a \<le> key b \<and> c \<le> 0)" by auto
  finally show ?thesis .
qed

lemma cmp_num_le: "(cmp_num a b \<le> 0) = (a \<le> b)"
  by (simp add: cmp_num_def)

lemma cmp_xs_le: "(cmp_xs a b \<le> 0) = (e_xs a \<le> e_xs b)"
  by (simp add: cmp_xs_def)

lemma cmp_entry_le: "(cmp_entry a b \<le> 0) = (entry_key a \<le> entry_key b)"
  by (simp add: cmp_entry_def entry_key_def js_or_le)


lemma cmp_row_le:
  "collates lc key \<Longrightarrow> (cmp_row lc a b \<le> 0) = (canonical_key key a \<le> canonical_key key b)"
  by (simp add: cmp_row_def canonical_key_def js_or_le js_or_lc_le)

lemma sort_by_cmp_num: "sort_by cmp_num xs = sort xs"
  by (rule sort_by_key) (rule cmp_num_le)

lemma sort_by_cmp_xs: "sort_by cmp_xs es = sort_key e_xs es"
  by (rule sort_by_key) (rule cmp_xs_le)

lemma sort_by_cmp_entry: "sort_by cmp_entry es = sort_key entry_key es"
  by (rule sort_by_key) (rule cmp_entry_le)


lemma sort_by_cmp_row:
  "collates lc key \<Longrightarrow> sort_by (cmp_row lc) rows = sort_key (canonical_key key) rows"
  by (rule sort_by_key) (rule cmp_row_le)


lemma inj_on_canonical_key:
  assumes "inj_on key (r_name ` set rows)"
  shows "inj_on (canonical_key key) (set rows)"
proof (rule inj_onI)
  fix a b :: RawRow
  assume a: "a \<in> set rows" and b: "b \<in> set rows"
    and e: "canonical_key key a = canonical_key key b"
  from e have k: "key (r_name a) = key (r_name b)"
    by (simp add: canonical_key_def)
  from a b have "r_name a \<in> r_name ` set rows" and "r_name b \<in> r_name ` set rows"
    by simp_all
  with assms k have "r_name a = r_name b"
    by (rule inj_onD)
  moreover from e have "r_coord a = r_coord b" and "r_id a = r_id b"
    and "r_cityId a = r_cityId b" and "r_number a = r_number b"
    and "r_countryId a = r_countryId b"
    by (simp_all add: canonical_key_def)
  ultimately show "a = b" by simp
qed

lemma sort_rows_mset:
  assumes "collates lc key" and "inj_on key (r_name ` set rows)" and "mset rows = mset rows'"
  shows "sort_by (cmp_row lc) rows = sort_by (cmp_row lc) rows'"
  unfolding sort_by_cmp_row [OF assms(1)]
  using assms(3) inj_on_canonical_key [OF assms(2)] by (rule sort_key_eq_sort_key)

lemma collates_codepoint: "collates codepoint_collation (\<lambda>a. a)"
  by (auto simp: collates_def codepoint_collation_def)

lemma collates_ignoring: "collates ignoring_collation drop_controls"
  by (auto simp: collates_def ignoring_collation_def codepoint_collation_def)

lemma map_sort_key: "map f (sort_key f xs) = sort (map f xs)"
  by (rule sym) (rule properties_for_sort, simp_all)

lemma map_sort_key_mset:
  "mset xs = mset ys \<Longrightarrow> map f (sort_key f xs) = map f (sort_key f ys)"
proof -
  assume "mset xs = mset ys"
  then have "mset (map f xs) = mset (map f ys)" by simp
  then have "sort (map f xs) = sort (map f ys)"
    by (rule sort_key_eq_sort_key) simp
  then show ?thesis by (simp only: map_sort_key)
qed

section \<open>The round trip\<close>

lemma merge_loop_upto:
  "start \<le> prev \<Longrightarrow>
   concat (map (\<lambda>(a, b). [a..b]) (merge_loop start prev rest)) = [start..prev] @ rest"
proof (induction rest arbitrary: start prev)
  case Nil
  then show ?case by simp
next
  case (Cons cur rest)
  show ?case
  proof (cases "cur = prev + 1")
    case True
    have "[start..prev + 1] = [start..prev] @ [prev + 1]"
      using Cons.prems by (simp add: upto_rec2)
    with True Cons show ?thesis by simp
  next
    case False
    with Cons show ?thesis by simp
  qed
qed

lemma merge_runs_upto: "concat (map (\<lambda>(a, b). [a..b]) (merge_runs xs)) = xs"
  by (cases xs) (simp_all add: merge_runs_def merge_loop_upto)

lemma v1_rows_entry_rows:
  "v1_rows blob = concat (map (entry_rows (v1_c blob) (v1_n blob) (v1_id blob)) (v1_e blob))"
  by (simp add: v1_rows_def entry_rows_def [abs_def])

lemma key_row_self:
  "key_row (r_cityId r) (r_name r) (r_countryId r) (subKey_of r) (tileX (r_coord r)) = r"
  by (simp add: key_row_def subKey_of_def)

lemma bucket_entries_rows:
  "concat (map (entry_rows c n cid) (bucket_entries (sk, xs))) = map (key_row c n cid sk) (sort xs)"
proof -
  obtain rid num y where sk: "sk = (rid, num, y)" by (cases sk) auto
  let ?runs = "merge_runs (sort xs)"
  have "concat (map (entry_rows c n cid) (bucket_entries (sk, xs)))
        = concat (map (\<lambda>(a, b). map (key_row c n cid sk) [a..b]) ?runs)"
    by (simp add: bucket_entries_def sk sort_by_cmp_num entry_rows_def key_row_def [abs_def]
          comp_def case_prod_unfold)
  also have "\<dots> = map (key_row c n cid sk) (concat (map (\<lambda>(a, b). [a..b]) ?runs))"
    by (simp add: map_concat comp_def case_prod_unfold)
  finally show ?thesis by (simp add: merge_runs_upto)
qed

lemma mset_concat_map:
  "mset (concat (map f xs)) = sum_mset (image_mset (\<lambda>x. mset (f x)) (mset xs))"
  by (induction xs) simp_all

lemma mset_concat_map_cong:
  "mset xs = mset ys \<Longrightarrow> mset (concat (map f xs)) = mset (concat (map f ys))"
  by (simp add: mset_concat_map)

lemma mset_concat_map_eq:
  "(\<And>x. x \<in> set xs \<Longrightarrow> mset (f x) = mset (g x)) \<Longrightarrow>
   mset (concat (map f xs)) = mset (concat (map g xs))"
  by (induction xs) simp_all

lemma concat_map_concat:
  "concat (map f (concat xss)) = concat (map (\<lambda>xs. concat (map f xs)) xss)"
  by (induction xss) simp_all

lemma mset_group_blob_rows: "mset (v1_rows (group_blob g)) = mset (group_rows g)"
proof -
  let ?er = "entry_rows (g_c g) (g_n g) (g_id g)"
  have "mset (v1_rows (group_blob g))
        = mset (concat (map ?er (sort_key entry_key (concat (map bucket_entries (bucket g))))))"
    by (simp add: v1_rows_entry_rows group_blob_def sort_by_cmp_entry)
  also have "\<dots> = mset (concat (map ?er (concat (map bucket_entries (bucket g)))))"
    by (rule mset_concat_map_cong) simp
  also have "\<dots> = mset (concat (map (\<lambda>kx. concat (map ?er (bucket_entries kx))) (bucket g)))"
    by (simp add: concat_map_concat comp_def)
  also have "\<dots> = mset (group_rows g)"
    unfolding group_rows_def
    by (rule mset_concat_map_eq) (auto simp: bucket_entries_rows)
  finally show ?thesis .
qed

lemma mset_concat_update:
  assumes "\<And>w. map_of al k = Some w \<Longrightarrow> mset (f (k, v)) = mset (f (k, w)) + m"
    and "map_of al k = None \<Longrightarrow> mset (f (k, v)) = m"
  shows "mset (concat (map f (AList.update k v al))) = mset (concat (map f al)) + m"
  using assms
proof (induction al)
  case Nil
  then show ?case by simp
next
  case (Cons p al)
  show ?case
  proof (cases "fst p = k")
    case True
    then have "map_of (p # al) k = Some (snd p)" by (cases p) simp
    from Cons.prems(1) [OF this] True show ?thesis by (cases p) simp
  next
    case False
    then have "map_of (p # al) k = map_of al k" by (cases p) auto
    with Cons False show ?thesis by simp
  qed
qed

lemma map_of_groups_ok:
  "groups_ok groups \<Longrightarrow> map_of groups mk = Some g \<Longrightarrow> mk = (g_c g, g_n g, g_id g)"
  by (auto simp: groups_ok_def dest: map_of_SomeD)

lemma set_update_subset: "set (AList.update k v al) \<subseteq> insert (k, v) (set al)"
  by (induction al) auto

lemma add_row_Some:
  "map_of groups (metaKey_of r) = Some g \<Longrightarrow>
   add_row groups r =
     AList.update (metaKey_of r)
       (g\<lparr>bucket := AList.update (subKey_of r)
            ((case map_of (bucket g) (subKey_of r) of Some a \<Rightarrow> a | None \<Rightarrow> [])
               @ [tileX (r_coord r)]) (bucket g)\<rparr>) groups"
  by (simp add: add_row_def Let_def)

lemma add_row_None:
  "map_of groups (metaKey_of r) = None \<Longrightarrow>
   add_row groups r =
     AList.update (metaKey_of r)
       \<lparr>g_c = r_cityId r, g_n = r_name r, g_id = r_countryId r,
        bucket = [(subKey_of r, [tileX (r_coord r)])]\<rparr> groups"
  by (simp add: add_row_def Let_def)

lemma add_row_ok: "groups_ok groups \<Longrightarrow> groups_ok (add_row groups r)"
proof -
  assume ok: "groups_ok groups"
  show ?thesis
  proof (cases "map_of groups (metaKey_of r)")
    case None
    then show ?thesis
      using ok set_update_subset
      by (fastforce simp: add_row_def groups_ok_def metaKey_of_def Let_def)
  next
    case (Some g)
    from map_of_groups_ok [OF ok Some] Some show ?thesis
      using ok set_update_subset
      by (fastforce simp: add_row_def groups_ok_def Let_def)
  qed
qed

lemma bucket_update_rows:
  "mset (concat (map (\<lambda>(sk, xs). map (key_row c n cid sk) xs)
      (AList.update key ((case map_of b key of Some a \<Rightarrow> a | None \<Rightarrow> []) @ [x]) b)))
   = mset (concat (map (\<lambda>(sk, xs). map (key_row c n cid sk) xs) b)) + {#key_row c n cid key x#}"
  by (rule mset_concat_update) simp_all

lemma add_row_mset:
  assumes "groups_ok groups"
  shows "mset (concat (map (\<lambda>p. group_rows (snd p)) (add_row groups r)))
         = mset (concat (map (\<lambda>p. group_rows (snd p)) groups)) + {#r#}"
proof (cases "map_of groups (metaKey_of r)")
  case None
  show ?thesis
    unfolding add_row_None [OF None]
    by (rule mset_concat_update) (simp_all add: None group_rows_def key_row_self)
next
  case (Some g)
  from map_of_groups_ok [OF assms Some]
  have "key_row (g_c g) (g_n g) (g_id g) (subKey_of r) (tileX (r_coord r)) = r"
    using key_row_self [of r] by (simp add: metaKey_of_def)
  then show ?thesis
    unfolding add_row_Some [OF Some]
    by (intro mset_concat_update) (simp_all add: Some group_rows_def bucket_update_rows)
qed

lemma foldl_add_row_ok: "groups_ok groups \<Longrightarrow> groups_ok (foldl add_row groups rows)"
  by (induction rows arbitrary: groups) (simp_all add: add_row_ok)

lemma foldl_add_row_mset:
  "groups_ok groups \<Longrightarrow>
   mset (concat (map (\<lambda>p. group_rows (snd p)) (foldl add_row groups rows)))
   = mset (concat (map (\<lambda>p. group_rows (snd p)) groups)) + mset rows"
  by (induction rows arbitrary: groups) (simp_all add: add_row_ok add_row_mset)

lemma mset_rowsToV1_rows: "mset (concat (map v1_rows (rowsToV1 lc rows))) = mset rows"
proof -
  let ?gs = "foldl add_row [] rows"
  have ok: "groups_ok []" by (simp add: groups_ok_def)
  have "mset (concat (map v1_rows (rowsToV1 lc rows)))
        = mset (concat (map v1_rows (map (group_blob \<circ> snd) ?gs)))"
    unfolding rowsToV1_def by (rule mset_concat_map_cong) (rule mset_sort_by)
  also have "\<dots> = mset (concat (map (\<lambda>p. v1_rows (group_blob (snd p))) ?gs))"
    by (simp add: comp_def)
  also have "\<dots> = mset (concat (map (\<lambda>p. group_rows (snd p)) ?gs))"
    by (rule mset_concat_map_eq) (simp add: mset_group_blob_rows)
  also have "\<dots> = mset rows"
    using foldl_add_row_mset [OF ok, of rows] by simp
  finally show ?thesis .
qed

text \<open>
  C5 as stated fails: nothing removes duplicates. Two equal records give two entries for
  the same column, so the column is covered twice.
\<close>

theorem C5_counterexample:
  "rowsToV1 codepoint_collation [sample_row 1 1 0 5, sample_row 1 1 0 5]
   = [\<lparr>v1_c = 1, v1_n = ''A'', v1_id = 9,
       v1_e = [\<lparr>e_id = 1, e_n = 1, e_y = 5, e_xs = 0, e_xe = 0\<rparr>,
               \<lparr>e_id = 1, e_n = 1, e_y = 5, e_xs = 0, e_xe = 0\<rparr>]\<rparr>]"
  by code_simp

text \<open>
  C5, amended: \<^verbatim>\<open>rowsToV1\<close> keeps duplicates. The entries it emits cover every record
  exactly as many times as the record occurs in the input.
\<close>

theorem C5_duplicates_kept:
  "count_list (concat (map v1_rows (rowsToV1 lc rows))) r = count_list rows r"
  using mset_rowsToV1_rows [of lc rows] by (metis count_mset)

theorem C5_duplicates_kept_witness:
  "count_list (concat (map v1_rows (rowsToV1 codepoint_collation [sample_row 1 1 0 5, sample_row 1 1 0 5])))
     (sample_row 1 1 0 5) = 2"
proof -
  have "count_list [sample_row 1 1 0 5, sample_row 1 1 0 5] (sample_row 1 1 0 5) = 2"
    by simp
  with C5_duplicates_kept [of codepoint_collation "[sample_row 1 1 0 5, sample_row 1 1 0 5]"
      "sample_row 1 1 0 5"]
  show ?thesis by (simp only:)
qed

lemma run_loop_runs_from:
  "0 < i \<Longrightarrow> i \<le> length es \<Longrightarrow> rs < i \<Longrightarrow>
   (case run_loop s es i rs runs of
      (rs', runs') \<Rightarrow> runs' @ [flush es rs' (length es - 1)])
   = runs @ runs_from s (es ! rs) (int i - int rs) (es ! (i - 1)) (drop i es)"
proof (induction s es i rs runs rule: run_loop.induct)
  case (1 s es i rs runs)
  show ?case
  proof (cases "i < length es")
    case False
    with "1.prems" have "i = length es" by simp
    then show ?thesis
      using "1.prems" by (subst run_loop.simps) (simp add: flush_def Let_def of_nat_diff)
  next
    case True
    then have d: "drop i es = es ! i # drop (Suc i) es"
      by (simp add: Cons_nth_drop_Suc)
    show ?thesis
    proof (cases "step_ok s (es ! (i - 1)) (es ! i)")
      case ok: True
      then have c: "\<not> \<not> (e_xs (es ! i) = e_xs (es ! (i - 1)) + s
                \<and> e_id (es ! i) = e_id (es ! (i - 1)) + 1
                \<and> e_n (es ! i) = e_n (es ! (i - 1)) + 1)"
        by (simp add: step_ok_def)
      have "(case run_loop s es (i + 1) rs runs of
               (rs', runs') \<Rightarrow> runs' @ [flush es rs' (length es - 1)])
            = runs @ runs_from s (es ! rs) (int (i + 1) - int rs) (es ! (i + 1 - 1)) (drop (i + 1) es)"
        using "1.IH"(2) [OF True c] True "1.prems" by simp
      then have "(case run_loop s es (Suc i) rs runs of
               (rs', runs') \<Rightarrow> runs' @ [flush es rs' (length es - 1)])
            = runs @ runs_from s (es ! rs) (int i - int rs + 1) (es ! i) (drop (Suc i) es)"
        by (simp add: algebra_simps)
      then show ?thesis
        using True ok c by (subst run_loop.simps) (simp add: d)
    next
      case bad: False
      then have c: "\<not> (e_xs (es ! i) = e_xs (es ! (i - 1)) + s
                \<and> e_id (es ! i) = e_id (es ! (i - 1)) + 1
                \<and> e_n (es ! i) = e_n (es ! (i - 1)) + 1)"
        by (simp add: step_ok_def)
      have "(case run_loop s es (i + 1) i (runs @ [flush es rs (i - 1)]) of
               (rs', runs') \<Rightarrow> runs' @ [flush es rs' (length es - 1)])
            = (runs @ [flush es rs (i - 1)])
              @ runs_from s (es ! i) (int (i + 1) - int i) (es ! (i + 1 - 1)) (drop (i + 1) es)"
        using "1.IH"(1) [OF True c] True "1.prems" by simp
      then show ?thesis
        using True bad c "1.prems"
        by (subst run_loop.simps) (simp add: d flush_def Let_def of_nat_diff)
    qed
  qed
qed

lemma v2_runs_Cons: "v2_runs s (e0 # es) = runs_from s e0 1 e0 es"
  using run_loop_runs_from [of 1 "e0 # es" 0 s "[]"] by (simp add: v2_runs_def)

lemma v2_rows_run_rows:
  "v2_rows blob
   = concat (map (run_rows (v2_c blob) (v2_n blob) (v2_id blob) (v2_y blob) (v2_s blob)) (v2_seq blob))"
  by (simp add: v2_rows_def run_rows_def [abs_def] Let_def)

lemma entries_ok_iff:
  "entries_ok y s es = (\<forall>e \<in> set es. e_y e = y \<and> e_xe e - e_xs e + 1 = s)"
  by (induction es) auto

lemma run_rows_single:
  assumes "e_y e = y" and "e_xe e - e_xs e + 1 = s"
  shows "run_rows c n cid y s \<lparr>run_x0 = e_xs e, run_k = 1, run_id0 = e_id e, run_n0 = e_n e\<rparr>
         = entry_rows c n cid e"
proof -
  have xe: "e_xe e = e_xs e + (s - 1)" using assms(2) by simp
  show ?thesis by (simp add: run_rows_def entry_rows_def xe assms(1))
qed

lemma run_rows_snoc:
  assumes "1 \<le> k" and "e_y cur = y" and "e_xe cur - e_xs cur + 1 = s"
    and "e_xs cur = x0 + k * s" and "e_id cur = id0 + k" and "e_n cur = n0 + k"
  shows "run_rows c n cid y s \<lparr>run_x0 = x0, run_k = k + 1, run_id0 = id0, run_n0 = n0\<rparr>
         = run_rows c n cid y s \<lparr>run_x0 = x0, run_k = k, run_id0 = id0, run_n0 = n0\<rparr>
           @ entry_rows c n cid cur"
proof -
  have u: "[0..k] = [0..k - 1] @ [k]"
    using assms(1) upto_rec2 [of 0 k] by simp
  have xe: "e_xe cur = x0 + k * s + (s - 1)" using assms(3,4) by simp
  show ?thesis
    by (simp add: run_rows_def entry_rows_def u xe assms(2,4,5,6))
qed

lemma runs_from_rows:
  assumes "1 \<le> k"
    and "e_xs prev = e_xs first + (k - 1) * s"
    and "e_id prev = e_id first + (k - 1)"
    and "e_n prev = e_n first + (k - 1)"
    and "\<forall>e \<in> set rest. e_y e = y \<and> e_xe e - e_xs e + 1 = s"
  shows "concat (map (run_rows c n cid y s) (runs_from s first k prev rest))
         = run_rows c n cid y s
             \<lparr>run_x0 = e_xs first, run_k = k, run_id0 = e_id first, run_n0 = e_n first\<rparr>
           @ concat (map (entry_rows c n cid) rest)"
  using assms
proof (induction rest arbitrary: first k prev)
  case Nil
  then show ?case by simp
next
  case (Cons cur rest)
  from Cons.prems(5) have cur: "e_y cur = y" "e_xe cur - e_xs cur + 1 = s"
    and rest: "\<forall>e \<in> set rest. e_y e = y \<and> e_xe e - e_xs e + 1 = s"
    by simp_all
  show ?case
  proof (cases "step_ok s prev cur")
    case True
    then have x: "e_xs cur = e_xs first + k * s" and i: "e_id cur = e_id first + k"
      and n: "e_n cur = e_n first + k"
      using Cons.prems(2,3,4) by (simp_all add: step_ok_def algebra_simps)
    have "concat (map (run_rows c n cid y s) (runs_from s first (k + 1) cur rest))
          = run_rows c n cid y s
              \<lparr>run_x0 = e_xs first, run_k = k + 1, run_id0 = e_id first, run_n0 = e_n first\<rparr>
            @ concat (map (entry_rows c n cid) rest)"
      using Cons.prems(1) x i n rest by (intro Cons.IH) simp_all
    then show ?thesis
      using True run_rows_snoc [OF Cons.prems(1) cur x i n, of c n cid] by simp
  next
    case False
    have "concat (map (run_rows c n cid y s) (runs_from s cur 1 cur rest))
          = run_rows c n cid y s
              \<lparr>run_x0 = e_xs cur, run_k = 1, run_id0 = e_id cur, run_n0 = e_n cur\<rparr>
            @ concat (map (entry_rows c n cid) rest)"
      using rest by (intro Cons.IH) simp_all
    then show ?thesis
      using False run_rows_single [OF cur, of c n cid] by simp
  qed
qed

lemma v2_runs_rows:
  assumes "es \<noteq> []" and "\<forall>e \<in> set es. e_y e = y \<and> e_xe e - e_xs e + 1 = s"
  shows "concat (map (run_rows c n cid y s) (v2_runs s es)) = concat (map (entry_rows c n cid) es)"
proof -
  from assms(1) obtain e0 rest where es: "es = e0 # rest" by (cases es) auto
  with assms(2) have e0: "e_y e0 = y" "e_xe e0 - e_xs e0 + 1 = s"
    and rest: "\<forall>e \<in> set rest. e_y e = y \<and> e_xe e - e_xs e + 1 = s"
    by simp_all
  have "concat (map (run_rows c n cid y s) (runs_from s e0 1 e0 rest))
        = run_rows c n cid y s
            \<lparr>run_x0 = e_xs e0, run_k = 1, run_id0 = e_id e0, run_n0 = e_n e0\<rparr>
          @ concat (map (entry_rows c n cid) rest)"
    using rest by (intro runs_from_rows) simp_all
  then show ?thesis
    using run_rows_single [OF e0, of c n cid] by (simp add: es v2_runs_Cons)
qed

lemma v1ToV2_rows:
  assumes "v1ToV2IfPossible b s = Some v2"
  shows "v2_rows v2
         = concat (map (entry_rows (v1_c b) (v1_n b) (v1_id b)) (sort_key e_xs (v1_e b)))"
proof (cases "v1_e b")
  case Nil
  with assms show ?thesis
    by (auto simp: v1ToV2IfPossible_def v2_rows_def)
next
  case (Cons e0 rest)
  let ?es = "sort_key e_xs (v1_e b)"
  from assms Cons have ok: "entries_ok (e_y e0) s (v1_e b)"
    and v2: "v2 = \<lparr>v2_c = v1_c b, v2_n = v1_n b, v2_id = v1_id b, v2_y = e_y e0, v2_s = s,
                   v2_seq = v2_runs s ?es\<rparr>"
    by (auto simp: v1ToV2IfPossible_def Let_def sort_by_cmp_xs split: if_splits)
  from ok have all: "\<forall>e \<in> set ?es. e_y e = e_y e0 \<and> e_xe e - e_xs e + 1 = s"
    by (simp add: entries_ok_iff)
  have ne: "?es \<noteq> []" using Cons by (metis length_sort list.size(3) list.distinct(1) length_0_conv)
  show ?thesis
    using v2_runs_rows [OF ne all] by (simp add: v2 v2_rows_run_rows)
qed

lemma v1ToV2_mset:
  assumes "v1ToV2IfPossible b s = Some v2"
  shows "mset (v2_rows v2) = mset (v1_rows b)"
  unfolding v1ToV2_rows [OF assms] v1_rows_entry_rows
  by (rule mset_concat_map_cong) simp

lemma blob_rows_simps:
  "blob_rows (V1 b1) = v1_rows b1"
  "blob_rows (V2 b2) = v2_rows b2"
  "blob_rows (Both b2 es) = v2_rows b2"
  "blob_rows Other = []"
  by (simp_all add: blob_rows_def)

lemma expand_loop_eq:
  "expand_loop rows arr =
     (if Other \<in> set arr then Inl UnknownShape else Inr (rows @ concat (map blob_rows arr)))"
proof (induction arr arbitrary: rows)
  case Nil
  then show ?case by simp
next
  case (Cons blob arr)
  then show ?case by (cases blob) (simp_all add: blob_rows_simps)
qed

lemma expandCompact_eq:
  "expandCompact lc compact =
     (if Other \<in> set (to_array compact) then Inl UnknownShape
      else Inr (sort_by (cmp_row lc) (concat (map blob_rows (to_array compact)))))"
  by (simp add: expandCompact_def expand_loop_eq)

lemma to_array_payload: "to_array (payload arr) = arr"
  by (simp add: payload_def to_array_def split: list.splits)

lemma Other_notin_compactFromRows: "Other \<notin> set (compactFromRows lc rows s)"
  by (auto simp: compactFromRows_def split: option.splits)

lemma mset_compactFromRows_rows:
  "mset (concat (map blob_rows (compactFromRows lc rows s))) = mset rows"
proof -
  have "mset (concat (map blob_rows (compactFromRows lc rows s)))
        = mset (concat (map (\<lambda>b. blob_rows (case v1ToV2IfPossible b s of
                                                  Some v2 \<Rightarrow> V2 v2 | None \<Rightarrow> V1 b))
                         (rowsToV1 lc rows)))"
    by (simp add: compactFromRows_def comp_def)
  also have "\<dots> = mset (concat (map v1_rows (rowsToV1 lc rows)))"
    by (rule mset_concat_map_eq) (simp add: blob_rows_simps v1ToV2_mset split: option.splits)
  finally show ?thesis by (simp add: mset_rowsToV1_rows)
qed

lemma sort_by_cmp_row_idem:
  assumes "collates lc key"
  shows "sort_by (cmp_row lc) (sort_by (cmp_row lc) rows) = sort_by (cmp_row lc) rows"
  unfolding sort_by_cmp_row [OF assms]
  by (rule sort_key_id_if_sorted) (rule sorted_sort_key)

text \<open>What the decoder returns for an encoded list: the sorted rows of the blobs.\<close>

lemma decode_encode:
  "expandCompact lc (Many (compactFromRows lc rows s))
     = Inr (sort_by (cmp_row lc) (concat (map blob_rows (compactFromRows lc rows s))))
   \<and> expandCompact lc (payload (compactFromRows lc rows s))
     = Inr (sort_by (cmp_row lc) (concat (map blob_rows (compactFromRows lc rows s))))"
  by (simp add: expandCompact_eq to_array_payload Other_notin_compactFromRows)
    (simp add: to_array_def Other_notin_compactFromRows)

lemma mset_decode_encode:
  "mset (sort_by (cmp_row lc) (concat (map blob_rows (compactFromRows lc rows s)))) = mset rows"
  by (simp only: mset_sort_by mset_compactFromRows_rows)

lemma decode_encode_sorted:
  assumes "collates lc key" and "inj_on key (r_name ` set rows)"
  shows "sort_by (cmp_row lc) (concat (map blob_rows (compactFromRows lc rows s)))
         = sort_by (cmp_row lc) rows"
proof -
  have "mset rows = mset (concat (map blob_rows (compactFromRows lc rows s)))"
    by (simp only: mset_compactFromRows_rows)
  with assms have "sort_by (cmp_row lc) rows
                   = sort_by (cmp_row lc) (concat (map blob_rows (compactFromRows lc rows s)))"
    by (rule sort_rows_mset)
  then show ?thesis by (rule sym)
qed

text \<open>
  C1 as stated fails where two different names collate equal. The three records below
  have the names \<^verbatim>\<open>A\<close>, \<^verbatim>\<open>A\u0001\<close> and \<^verbatim>\<open>A\<close>, at the columns 7, 0 and 0. The
  encoder puts the two records named \<^verbatim>\<open>A\<close> in one blob, ahead of the other, so the decoded
  sequence has the record \<^verbatim>\<open>A\<close> of column 0 first; the canonical sort of the input, which
  is stable, leaves the record \<^verbatim>\<open>A\u0001\<close> first. The decoded sequence is in canonical
  order already, and the two differ.
\<close>

theorem C1_counterexample:
  "expandCompact ignoring_collation
     (Many (compactFromRows ignoring_collation
        [named_row ''A'' 7, named_row [CHR ''A'', CHR 0x01] 0, named_row ''A'' 0] 4))
   = Inr [named_row ''A'' 0, named_row [CHR ''A'', CHR 0x01] 0, named_row ''A'' 7]
   \<and> sort_by (cmp_row ignoring_collation)
       [named_row ''A'' 0, named_row [CHR ''A'', CHR 0x01] 0, named_row ''A'' 7]
     = [named_row ''A'' 0, named_row [CHR ''A'', CHR 0x01] 0, named_row ''A'' 7]
   \<and> sort_by (cmp_row ignoring_collation)
       [named_row ''A'' 7, named_row [CHR ''A'', CHR 0x01] 0, named_row ''A'' 0]
     = [named_row [CHR ''A'', CHR 0x01] 0, named_row ''A'' 0, named_row ''A'' 7]
   \<and> [named_row ''A'' 0, named_row [CHR ''A'', CHR 0x01] 0, named_row ''A'' 7]
     \<noteq> [named_row [CHR ''A'', CHR 0x01] 0, named_row ''A'' 0, named_row ''A'' 7]"
  by code_simp

text \<open>
  C1, amended: decoding what \<^verbatim>\<open>compactFromRows\<close> returns (or the value written to the
  file, the blob itself when there is one group) succeeds and gives the records of the
  input, each as many times as it occurs there, for every list of records, every stride
  and every collation, whatever tier each group gets. For a collation that compares names
  by their sort keys, the decoded records and the input agree after the canonical sort
  in the seven sort keys of each position; and when no two different names of the input
  collate equal, the decoded sequence is the input in canonical order, so the two are
  equal after the canonical sort.
\<close>

theorem C1_round_trip:
  "\<exists>decoded. expandCompact lc (Many (compactFromRows lc rows s)) = Inr decoded
     \<and> expandCompact lc (payload (compactFromRows lc rows s)) = Inr decoded
     \<and> mset decoded = mset rows
     \<and> (collates lc key
          \<longrightarrow> map (canonical_key key) (sort_by (cmp_row lc) decoded)
                = map (canonical_key key) (sort_by (cmp_row lc) rows)
              \<and> (inj_on key (r_name ` set rows)
                   \<longrightarrow> decoded = sort_by (cmp_row lc) rows
                       \<and> sort_by (cmp_row lc) decoded = sort_by (cmp_row lc) rows))"
proof -
  let ?d = "sort_by (cmp_row lc) (concat (map blob_rows (compactFromRows lc rows s)))"
  have m: "mset ?d = mset rows"
    by (rule mset_decode_encode)
  have k: "map (canonical_key key) (sort_by (cmp_row lc) ?d)
           = map (canonical_key key) (sort_by (cmp_row lc) rows)" if c: "collates lc key"
    unfolding sort_by_cmp_row [OF c, symmetric] sort_by_cmp_row_idem [OF c]
    unfolding sort_by_cmp_row [OF c]
    using m [unfolded mset_sort_by] by (rule map_sort_key_mset)
  have e: "?d = sort_by (cmp_row lc) rows \<and> sort_by (cmp_row lc) ?d = sort_by (cmp_row lc) rows"
    if c: "collates lc key" and i: "inj_on key (r_name ` set rows)"
    using decode_encode_sorted [OF c i, of s] by (simp add: sort_by_cmp_row_idem [OF c])
  from decode_encode [of lc rows s] m k e show ?thesis
    by (intro exI [of _ ?d] conjI impI) blast+
qed

text \<open>A group that becomes Tier-2 (stride 2) and the same records left in Tier-1 (stride 4).\<close>

theorem C1_round_trip_witness:
  "compactFromRows codepoint_collation
     [sample_row 2 2 3 5, sample_row 1 1 1 5, sample_row 1 1 0 5, sample_row 2 2 2 5] 2
   = [V2 \<lparr>v2_c = 1, v2_n = ''A'', v2_id = 9, v2_y = 5, v2_s = 2,
          v2_seq = [\<lparr>run_x0 = 0, run_k = 2, run_id0 = 1, run_n0 = 1\<rparr>]\<rparr>]
   \<and> expandCompact codepoint_collation (Many (compactFromRows codepoint_collation
        [sample_row 2 2 3 5, sample_row 1 1 1 5, sample_row 1 1 0 5, sample_row 2 2 2 5] 2))
     = Inr [sample_row 1 1 0 5, sample_row 1 1 1 5, sample_row 2 2 2 5, sample_row 2 2 3 5]
   \<and> compactFromRows codepoint_collation
     [sample_row 2 2 3 5, sample_row 1 1 1 5, sample_row 1 1 0 5, sample_row 2 2 2 5] 4
   = [V1 \<lparr>v1_c = 1, v1_n = ''A'', v1_id = 9,
          v1_e = [\<lparr>e_id = 1, e_n = 1, e_y = 5, e_xs = 0, e_xe = 1\<rparr>,
                  \<lparr>e_id = 2, e_n = 2, e_y = 5, e_xs = 2, e_xe = 3\<rparr>]\<rparr>]
   \<and> expandCompact codepoint_collation (Many (compactFromRows codepoint_collation
        [sample_row 2 2 3 5, sample_row 1 1 1 5, sample_row 1 1 0 5, sample_row 2 2 2 5] 4))
     = Inr [sample_row 1 1 0 5, sample_row 1 1 1 5, sample_row 2 2 2 5, sample_row 2 2 3 5]"
proof -
  let ?rows = "[sample_row 2 2 3 5, sample_row 1 1 1 5, sample_row 1 1 0 5, sample_row 2 2 2 5]"
  let ?key = "\<lambda>a :: string. a"
  have s: "sort_by (cmp_row codepoint_collation) ?rows
           = [sample_row 1 1 0 5, sample_row 1 1 1 5, sample_row 2 2 2 5, sample_row 2 2 3 5]"
    by code_simp
  have t2: "compactFromRows codepoint_collation ?rows 2
            = [V2 \<lparr>v2_c = 1, v2_n = ''A'', v2_id = 9, v2_y = 5, v2_s = 2,
                   v2_seq = [\<lparr>run_x0 = 0, run_k = 2, run_id0 = 1, run_n0 = 1\<rparr>]\<rparr>]"
    by code_simp
  have t1: "compactFromRows codepoint_collation ?rows 4
            = [V1 \<lparr>v1_c = 1, v1_n = ''A'', v1_id = 9,
                   v1_e = [\<lparr>e_id = 1, e_n = 1, e_y = 5, e_xs = 0, e_xe = 1\<rparr>,
                           \<lparr>e_id = 2, e_n = 2, e_y = 5, e_xs = 2, e_xe = 3\<rparr>]\<rparr>]"
    by code_simp
  have c: "collates codepoint_collation ?key"
    by (rule collates_codepoint)
  have i: "inj_on ?key (r_name ` set ?rows)"
    by (rule inj_onI)
  from C1_round_trip [where lc = codepoint_collation and key = ?key and rows = ?rows and s = 2]
  obtain d2 where "expandCompact codepoint_collation
        (Many (compactFromRows codepoint_collation ?rows 2)) = Inr d2"
    and "collates codepoint_collation ?key
         \<longrightarrow> map (canonical_key ?key) (sort_by (cmp_row codepoint_collation) d2)
               = map (canonical_key ?key) (sort_by (cmp_row codepoint_collation) ?rows)
             \<and> (inj_on ?key (r_name ` set ?rows)
                  \<longrightarrow> d2 = sort_by (cmp_row codepoint_collation) ?rows
                      \<and> sort_by (cmp_row codepoint_collation) d2
                        = sort_by (cmp_row codepoint_collation) ?rows)"
    by (elim exE conjE)
  with c i have a: "expandCompact codepoint_collation
        (Many (compactFromRows codepoint_collation ?rows 2))
      = Inr (sort_by (cmp_row codepoint_collation) ?rows)"
    by (simp only: simp_thms)
  from C1_round_trip [where lc = codepoint_collation and key = ?key and rows = ?rows and s = 4]
  obtain d4 where "expandCompact codepoint_collation
        (Many (compactFromRows codepoint_collation ?rows 4)) = Inr d4"
    and "collates codepoint_collation ?key
         \<longrightarrow> map (canonical_key ?key) (sort_by (cmp_row codepoint_collation) d4)
               = map (canonical_key ?key) (sort_by (cmp_row codepoint_collation) ?rows)
             \<and> (inj_on ?key (r_name ` set ?rows)
                  \<longrightarrow> d4 = sort_by (cmp_row codepoint_collation) ?rows
                      \<and> sort_by (cmp_row codepoint_collation) d4
                        = sort_by (cmp_row codepoint_collation) ?rows)"
    by (elim exE conjE)
  with c i have b: "expandCompact codepoint_collation
        (Many (compactFromRows codepoint_collation ?rows 4))
      = Inr (sort_by (cmp_row codepoint_collation) ?rows)"
    by (simp only: simp_thms)
  from t2 a [unfolded s] t1 b [unfolded s] show ?thesis
    by (intro conjI)
qed

section \<open>The decoder's order\<close>

lemma sorted_sort_by_cmp_row:
  "collates lc key \<Longrightarrow> sorted (map (canonical_key key) (sort_by (cmp_row lc) rows))"
  by (simp add: sort_by_cmp_row)

lemma sorted_wrt_cmp_row:
  "collates lc key \<Longrightarrow>
   sorted_wrt (\<lambda>a b. cmp_row lc a b \<le> 0) rows = sorted (map (canonical_key key) rows)"
  by (simp add: sorted_map cmp_row_le)

lemma expandCompact_Inr:
  "expandCompact lc compact = Inr rows \<Longrightarrow>
   rows = sort_by (cmp_row lc) (concat (map blob_rows (to_array compact)))"
  by (simp add: expandCompact_eq split: if_splits)

text \<open>
  C6 as stated fails where two different names collate equal: records that tie in all
  seven fields keep the order of their blobs, since the sort is stable. The two documents
  below hold the same two blobs in the two orders, with the names \<^verbatim>\<open>A\<close> and
  \<^verbatim>\<open>A\u0001\<close>; they expand to the same records and decode to different sequences.
\<close>

theorem C6_counterexample:
  "expandCompact ignoring_collation
     (Many [V1 \<lparr>v1_c = 1, v1_n = ''A'', v1_id = 9,
                v1_e = [\<lparr>e_id = 1, e_n = 1, e_y = 5, e_xs = 0, e_xe = 0\<rparr>]\<rparr>,
            V1 \<lparr>v1_c = 1, v1_n = [CHR ''A'', CHR 0x01], v1_id = 9,
                v1_e = [\<lparr>e_id = 1, e_n = 1, e_y = 5, e_xs = 0, e_xe = 0\<rparr>]\<rparr>])
   = Inr [named_row ''A'' 0, named_row [CHR ''A'', CHR 0x01] 0]
   \<and> expandCompact ignoring_collation
     (Many [V1 \<lparr>v1_c = 1, v1_n = [CHR ''A'', CHR 0x01], v1_id = 9,
                v1_e = [\<lparr>e_id = 1, e_n = 1, e_y = 5, e_xs = 0, e_xe = 0\<rparr>]\<rparr>,
            V1 \<lparr>v1_c = 1, v1_n = ''A'', v1_id = 9,
                v1_e = [\<lparr>e_id = 1, e_n = 1, e_y = 5, e_xs = 0, e_xe = 0\<rparr>]\<rparr>])
   = Inr [named_row [CHR ''A'', CHR 0x01] 0, named_row ''A'' 0]
   \<and> named_row ''A'' 0 \<noteq> named_row [CHR ''A'', CHR 0x01] 0"
  by code_simp

text \<open>
  C6, amended: for a collation that compares names by their sort keys, the records
  \<^verbatim>\<open>expandCompact\<close> returns are in ascending order of \<open>(cityId, countryId, name, tileY,
  tileX, id, number)\<close>, the names in the order of the collation; and when no two different
  names among these records collate equal, every document that expands to the same
  records, counted with their multiplicities, decodes to the same sequence, whatever the
  order of its blobs and the tier of each.
\<close>

theorem C6_canonical_order:
  assumes "collates lc key" and "expandCompact lc compact = Inr rows"
  shows "sorted (map (canonical_key key) rows)
         \<and> sorted_wrt (\<lambda>a b. cmp_row lc a b \<le> 0) rows
         \<and> (inj_on key (r_name ` set rows)
              \<longrightarrow> (\<forall>compact' rows'. expandCompact lc compact' = Inr rows' \<and> mset rows' = mset rows
                     \<longrightarrow> rows' = rows))"
proof -
  let ?R = "concat (map blob_rows (to_array compact))"
  have rows: "rows = sort_by (cmp_row lc) ?R"
    using assms(2) by (rule expandCompact_Inr)
  then have s: "sorted (map (canonical_key key) rows)"
    by (simp add: sorted_sort_by_cmp_row [OF assms(1)])
  have "rows' = rows"
    if inj: "inj_on key (r_name ` set rows)"
      and e: "expandCompact lc compact' = Inr rows'" and m: "mset rows' = mset rows"
    for compact' rows'
  proof -
    let ?R' = "concat (map blob_rows (to_array compact'))"
    have rows': "rows' = sort_by (cmp_row lc) ?R'"
      using e by (rule expandCompact_Inr)
    have mR: "mset ?R = mset ?R'"
      using m by (simp only: rows rows' mset_sort_by)
    have "set rows = set ?R"
      by (simp only: rows set_sort_by)
    with inj have "inj_on key (r_name ` set ?R)" by simp
    with assms(1) have "sort_by (cmp_row lc) ?R = sort_by (cmp_row lc) ?R'"
      using mR by (rule sort_rows_mset)
    then show ?thesis
      by (simp only: rows rows')
  qed
  with s show ?thesis
    by (simp add: sorted_wrt_cmp_row [OF assms(1)]) blast
qed

theorem C6_canonical_order_witness:
  "expandCompact codepoint_collation
     (Many [V2 \<lparr>v2_c = 1, v2_n = ''A'', v2_id = 9, v2_y = 5, v2_s = 2,
                 v2_seq = [\<lparr>run_x0 = 0, run_k = 2, run_id0 = 1, run_n0 = 1\<rparr>]\<rparr>,
            V1 \<lparr>v1_c = 0, v1_n = ''B'', v1_id = 3,
                v1_e = [\<lparr>e_id = 7, e_n = 7, e_y = 1, e_xs = 4, e_xe = 4\<rparr>]\<rparr>])
   = Inr [\<lparr>r_id = 7, r_cityId = 0, r_name = ''B'', r_number = 7, r_countryId = 3,
           r_coord = \<lparr>tileX = 4, tileY = 1\<rparr>\<rparr>,
          sample_row 1 1 0 5, sample_row 1 1 1 5, sample_row 2 2 2 5, sample_row 2 2 3 5]
   \<and> sorted (map (canonical_key (\<lambda>a :: string. a))
        [\<lparr>r_id = 7, r_cityId = 0, r_name = ''B'', r_number = 7, r_countryId = 3,
           r_coord = \<lparr>tileX = 4, tileY = 1\<rparr>\<rparr>,
          sample_row 1 1 0 5, sample_row 1 1 1 5, sample_row 2 2 2 5, sample_row 2 2 3 5])
   \<and> expandCompact codepoint_collation
        (Many [V1 \<lparr>v1_c = 1, v1_n = ''A'', v1_id = 9,
                   v1_e = [\<lparr>e_id = 2, e_n = 2, e_y = 5, e_xs = 2, e_xe = 3\<rparr>,
                           \<lparr>e_id = 1, e_n = 1, e_y = 5, e_xs = 0, e_xe = 1\<rparr>]\<rparr>,
               V1 \<lparr>v1_c = 0, v1_n = ''B'', v1_id = 3,
                   v1_e = [\<lparr>e_id = 7, e_n = 7, e_y = 1, e_xs = 4, e_xe = 4\<rparr>]\<rparr>])
     = Inr [\<lparr>r_id = 7, r_cityId = 0, r_name = ''B'', r_number = 7, r_countryId = 3,
             r_coord = \<lparr>tileX = 4, tileY = 1\<rparr>\<rparr>,
            sample_row 1 1 0 5, sample_row 1 1 1 5, sample_row 2 2 2 5, sample_row 2 2 3 5]"
proof -
  let ?d = "Many [V2 \<lparr>v2_c = 1, v2_n = ''A'', v2_id = 9, v2_y = 5, v2_s = 2,
                      v2_seq = [\<lparr>run_x0 = 0, run_k = 2, run_id0 = 1, run_n0 = 1\<rparr>]\<rparr>,
                  V1 \<lparr>v1_c = 0, v1_n = ''B'', v1_id = 3,
                      v1_e = [\<lparr>e_id = 7, e_n = 7, e_y = 1, e_xs = 4, e_xe = 4\<rparr>]\<rparr>]"
  let ?d' = "Many [V1 \<lparr>v1_c = 1, v1_n = ''A'', v1_id = 9,
                       v1_e = [\<lparr>e_id = 2, e_n = 2, e_y = 5, e_xs = 2, e_xe = 3\<rparr>,
                               \<lparr>e_id = 1, e_n = 1, e_y = 5, e_xs = 0, e_xe = 1\<rparr>]\<rparr>,
                   V1 \<lparr>v1_c = 0, v1_n = ''B'', v1_id = 3,
                       v1_e = [\<lparr>e_id = 7, e_n = 7, e_y = 1, e_xs = 4, e_xe = 4\<rparr>]\<rparr>]"
  let ?rows = "[\<lparr>r_id = 7, r_cityId = 0, r_name = ''B'', r_number = 7, r_countryId = 3,
                 r_coord = \<lparr>tileX = 4, tileY = 1\<rparr>\<rparr>,
                sample_row 1 1 0 5, sample_row 1 1 1 5, sample_row 2 2 2 5, sample_row 2 2 3 5]"
  let ?key = "\<lambda>a :: string. a"
  have d: "expandCompact codepoint_collation ?d = Inr ?rows" by code_simp
  have i: "inj_on ?key (r_name ` set ?rows)" by (rule inj_onI)
  obtain rows' where d': "expandCompact codepoint_collation ?d' = Inr rows'"
    and m: "mset rows' = mset ?rows"
  proof
    show "expandCompact codepoint_collation ?d' = Inr ?rows" by code_simp
    show "mset ?rows = mset ?rows" by (rule refl)
  qed
  note t = C6_canonical_order [OF collates_codepoint d]
  from t have s: "sorted (map (canonical_key ?key) ?rows)"
    by (rule conjunct1)
  from t i have "\<forall>compact' rows'. expandCompact codepoint_collation compact' = Inr rows'
      \<and> mset rows' = mset ?rows \<longrightarrow> rows' = ?rows"
    by (elim conjE impE)
  with d' m have "rows' = ?rows" by blast
  with d' have "expandCompact codepoint_collation ?d' = Inr ?rows" by (simp only:)
  with d s show ?thesis by (intro conjI)
qed

section \<open>The progression compactor\<close>

lemma length_runs_from:
  "length (runs_from s first k prev rest)
   = Suc (length (filter (\<lambda>(p, c). \<not> step_ok s p c) (zip (prev # rest) rest)))"
  by (induction rest arbitrary: first k prev) simp_all

lemma length_v2_runs: "es \<noteq> [] \<Longrightarrow> length (v2_runs s es) = run_count s es"
  by (cases es) (simp_all add: v2_runs_Cons length_runs_from run_count_def)

lemma sort_by_Nil_iff: "(sort_by cmp xs = []) = (xs = [])"
proof -
  have "insort_by cmp x ys \<noteq> []" for x ys by (cases ys) simp_all
  then show ?thesis by (cases xs) (simp_all add: sort_by_def)
qed

lemma v1ToV2_Cons:
  "v1_e v1 = e0 # rest \<Longrightarrow>
   v1ToV2IfPossible v1 s =
     (if \<not> entries_ok (e_y e0) s (v1_e v1) then None
      else if length (v2_runs s (sort_by cmp_xs (v1_e v1))) = 1
              \<or> length (v2_runs s (sort_by cmp_xs (v1_e v1))) * 2 \<le> length (v1_e v1)
      then Some \<lparr>v2_c = v1_c v1, v2_n = v1_n v1, v2_id = v1_id v1, v2_y = e_y e0, v2_s = s,
                 v2_seq = v2_runs s (sort_by cmp_xs (v1_e v1))\<rparr>
      else None)"
  by (simp add: v1ToV2IfPossible_def Let_def)

text \<open>
  C3: for a group that is not empty and whose entries share one \<open>y\<close> and the width \<open>s\<close>,
  \<^verbatim>\<open>v1ToV2IfPossible\<close> returns the Tier-2 blob (with that \<open>y\<close>, the stride \<open>s\<close> and as
  many runs as the run count) exactly when the run count is 1 or twice the run count is at
  most the number of entries, and \<^verbatim>\<open>null\<close> otherwise; then \<^verbatim>\<open>compactFromRows\<close> keeps
  the Tier-1 blob.
\<close>

theorem C3_acceptance:
  assumes "v1_e v1 \<noteq> []"
    and "\<forall>e \<in> set (v1_e v1). e_y e = y \<and> e_xe e - e_xs e + 1 = s"
  shows "(let runCount = run_count s (sort_by cmp_xs (v1_e v1)) in
          if runCount = 1 \<or> 2 * runCount \<le> length (v1_e v1)
          then \<exists>runs. length runs = runCount
                 \<and> v1ToV2IfPossible v1 s
                     = Some \<lparr>v2_c = v1_c v1, v2_n = v1_n v1, v2_id = v1_id v1,
                             v2_y = y, v2_s = s, v2_seq = runs\<rparr>
          else v1ToV2IfPossible v1 s = None
               \<and> (case v1ToV2IfPossible v1 s of Some v2 \<Rightarrow> V2 v2 | None \<Rightarrow> V1 v1) = V1 v1)"
proof -
  from assms(1) obtain e0 rest where e: "v1_e v1 = e0 # rest" by (cases "v1_e v1") auto
  with assms(2) have y: "e_y e0 = y" by simp
  have ok: "entries_ok (e_y e0) s (v1_e v1)"
    unfolding entries_ok_iff y using assms(2) by simp
  have ne: "sort_by cmp_xs (v1_e v1) \<noteq> []"
    using assms(1) by (simp add: sort_by_Nil_iff)
  have len: "length (v2_runs s (sort_by cmp_xs (v1_e v1))) = run_count s (sort_by cmp_xs (v1_e v1))"
    using ne by (rule length_v2_runs)
  have "v1ToV2IfPossible v1 s =
        (if length (v2_runs s (sort_by cmp_xs (v1_e v1))) = 1
            \<or> length (v2_runs s (sort_by cmp_xs (v1_e v1))) * 2 \<le> length (v1_e v1)
         then Some \<lparr>v2_c = v1_c v1, v2_n = v1_n v1, v2_id = v1_id v1, v2_y = y, v2_s = s,
                    v2_seq = v2_runs s (sort_by cmp_xs (v1_e v1))\<rparr>
         else None)"
    unfolding v1ToV2_Cons [OF e] using ok y by simp
  then show ?thesis
    using len by (auto simp: Let_def mult.commute)
qed

theorem C3_acceptance_witness:
  "run_count 2 (sort_by cmp_xs
        [\<lparr>e_id = 1, e_n = 1, e_y = 5, e_xs = 0, e_xe = 1\<rparr>,
         \<lparr>e_id = 2, e_n = 2, e_y = 5, e_xs = 2, e_xe = 3\<rparr>,
         \<lparr>e_id = 7, e_n = 7, e_y = 5, e_xs = 8, e_xe = 9\<rparr>]) = 2
   \<and> v1ToV2IfPossible
     \<lparr>v1_c = 1, v1_n = ''A'', v1_id = 9,
      v1_e = [\<lparr>e_id = 1, e_n = 1, e_y = 5, e_xs = 0, e_xe = 1\<rparr>,
              \<lparr>e_id = 2, e_n = 2, e_y = 5, e_xs = 2, e_xe = 3\<rparr>,
              \<lparr>e_id = 7, e_n = 7, e_y = 5, e_xs = 8, e_xe = 9\<rparr>]\<rparr> 2 = None
   \<and> run_count 2 (sort_by cmp_xs
        [\<lparr>e_id = 2, e_n = 2, e_y = 5, e_xs = 2, e_xe = 3\<rparr>,
         \<lparr>e_id = 1, e_n = 1, e_y = 5, e_xs = 0, e_xe = 1\<rparr>]) = 1
   \<and> v1ToV2IfPossible
     \<lparr>v1_c = 1, v1_n = ''A'', v1_id = 9,
      v1_e = [\<lparr>e_id = 2, e_n = 2, e_y = 5, e_xs = 2, e_xe = 3\<rparr>,
              \<lparr>e_id = 1, e_n = 1, e_y = 5, e_xs = 0, e_xe = 1\<rparr>]\<rparr> 2 \<noteq> None"
proof -
  let ?es = "[\<lparr>e_id = 1, e_n = 1, e_y = 5, e_xs = 0, e_xe = 1\<rparr>,
              \<lparr>e_id = 2, e_n = 2, e_y = 5, e_xs = 2, e_xe = 3\<rparr>,
              \<lparr>e_id = 7, e_n = 7, e_y = 5, e_xs = 8, e_xe = 9\<rparr>]"
  let ?v1 = "\<lparr>v1_c = 1, v1_n = ''A'', v1_id = 9, v1_e = ?es\<rparr>"
  let ?es' = "[\<lparr>e_id = 2, e_n = 2, e_y = 5, e_xs = 2, e_xe = 3\<rparr>,
               \<lparr>e_id = 1, e_n = 1, e_y = 5, e_xs = 0, e_xe = 1\<rparr>]"
  let ?v1' = "\<lparr>v1_c = 1, v1_n = ''A'', v1_id = 9, v1_e = ?es'\<rparr>"
  have ne: "v1_e ?v1 \<noteq> []" by simp
  have ok: "\<forall>e \<in> set (v1_e ?v1). e_y e = 5 \<and> e_xe e - e_xs e + 1 = 2" by simp
  have rc: "run_count 2 (sort_by cmp_xs (v1_e ?v1)) = 2" by code_simp
  have n: "\<not> ((2::nat) = 1 \<or> 2 * 2 \<le> length (v1_e ?v1))" by simp
  from C3_acceptance [OF ne ok] have r: "v1ToV2IfPossible ?v1 2 = None"
    unfolding Let_def rc if_not_P [OF n] by (rule conjunct1)
  have ne': "v1_e ?v1' \<noteq> []" by simp
  have ok': "\<forall>e \<in> set (v1_e ?v1'). e_y e = 5 \<and> e_xe e - e_xs e + 1 = 2" by simp
  have rc': "run_count 2 (sort_by cmp_xs (v1_e ?v1')) = 1" by code_simp
  have y: "(1::nat) = 1 \<or> 2 * 1 \<le> length (v1_e ?v1')" by simp
  from C3_acceptance [OF ne' ok'] have "\<exists>runs. length runs = 1
      \<and> v1ToV2IfPossible ?v1' 2
          = Some \<lparr>v2_c = v1_c ?v1', v2_n = v1_n ?v1', v2_id = v1_id ?v1',
                  v2_y = 5, v2_s = 2, v2_seq = runs\<rparr>"
    unfolding Let_def rc' if_P [OF y] .
  then have a: "v1ToV2IfPossible ?v1' 2 \<noteq> None" by auto
  from rc have rc0: "run_count 2 (sort_by cmp_xs ?es) = 2" by simp
  from rc' have rc0': "run_count 2 (sort_by cmp_xs ?es') = 1" by simp
  from rc0 r rc0' a show ?thesis by (intro conjI)
qed

text \<open>
  C4: a group that is not empty and has two entries with different \<open>y\<close>, or an entry whose
  width \<open>xe - xs + 1\<close> is not the stride, gives \<^verbatim>\<open>null\<close>; the empty group gives the
  Tier-2 blob with \<open>y = 0\<close> and no runs.
\<close>

theorem C4_preconditions:
  "(v1_e v1 \<noteq> []
      \<and> ((\<exists>a \<in> set (v1_e v1). \<exists>b \<in> set (v1_e v1). e_y a \<noteq> e_y b)
           \<or> (\<exists>a \<in> set (v1_e v1). e_xe a - e_xs a + 1 \<noteq> s))
      \<longrightarrow> v1ToV2IfPossible v1 s = None)
   \<and> (v1_e v1 = []
      \<longrightarrow> v1ToV2IfPossible v1 s
            = Some \<lparr>v2_c = v1_c v1, v2_n = v1_n v1, v2_id = v1_id v1,
                    v2_y = 0, v2_s = s, v2_seq = []\<rparr>)"
proof (intro conjI impI)
  assume "v1_e v1 = []"
  then show "v1ToV2IfPossible v1 s
             = Some \<lparr>v2_c = v1_c v1, v2_n = v1_n v1, v2_id = v1_id v1,
                     v2_y = 0, v2_s = s, v2_seq = []\<rparr>"
    by (simp add: v1ToV2IfPossible_def)
next
  assume a: "v1_e v1 \<noteq> []
      \<and> ((\<exists>a \<in> set (v1_e v1). \<exists>b \<in> set (v1_e v1). e_y a \<noteq> e_y b)
           \<or> (\<exists>a \<in> set (v1_e v1). e_xe a - e_xs a + 1 \<noteq> s))"
  then obtain e0 rest where e: "v1_e v1 = e0 # rest" by (cases "v1_e v1") auto
  have "\<not> entries_ok (e_y e0) s (v1_e v1)"
    using a unfolding entries_ok_iff by metis
  then show "v1ToV2IfPossible v1 s = None"
    unfolding v1ToV2_Cons [OF e] by simp
qed

theorem C4_preconditions_witness:
  "v1ToV2IfPossible
     \<lparr>v1_c = 1, v1_n = ''A'', v1_id = 9,
      v1_e = [\<lparr>e_id = 1, e_n = 1, e_y = 5, e_xs = 0, e_xe = 3\<rparr>,
              \<lparr>e_id = 2, e_n = 2, e_y = 6, e_xs = 4, e_xe = 7\<rparr>]\<rparr> 4 = None
   \<and> v1ToV2IfPossible \<lparr>v1_c = 1, v1_n = ''A'', v1_id = 9, v1_e = []\<rparr> 4
     = Some \<lparr>v2_c = 1, v2_n = ''A'', v2_id = 9, v2_y = 0, v2_s = 4, v2_seq = []\<rparr>"
proof -
  let ?a = "\<lparr>e_id = 1, e_n = 1, e_y = 5, e_xs = 0, e_xe = 3\<rparr>"
  let ?b = "\<lparr>e_id = 2, e_n = 2, e_y = 6, e_xs = 4, e_xe = 7\<rparr>"
  let ?v1 = "\<lparr>v1_c = 1, v1_n = ''A'', v1_id = 9, v1_e = [?a, ?b]\<rparr>"
  let ?v0 = "\<lparr>v1_c = 1, v1_n = ''A'', v1_id = 9, v1_e = []\<rparr>"
  have h: "v1_e ?v1 \<noteq> []
      \<and> ((\<exists>a \<in> set (v1_e ?v1). \<exists>b \<in> set (v1_e ?v1). e_y a \<noteq> e_y b)
           \<or> (\<exists>a \<in> set (v1_e ?v1). e_xe a - e_xs a + 1 \<noteq> 4))"
    by code_simp
  have e: "v1_e ?v0 = []" by simp
  from C4_preconditions [of ?v1 4] h have "v1ToV2IfPossible ?v1 4 = None"
    by blast
  moreover from C4_preconditions [of ?v0 4] e
  have "v1ToV2IfPossible ?v0 4
        = Some \<lparr>v2_c = v1_c ?v0, v2_n = v1_n ?v0, v2_id = v1_id ?v0,
                v2_y = 0, v2_s = 4, v2_seq = []\<rparr>"
    by blast
  ultimately show ?thesis by simp
qed

section \<open>Tier discrimination\<close>

lemma query_loop_append_Both:
  "query_loop (pre @ Both b es # post) x y = query_loop (pre @ V2 b # post) x y"
  by (induction pre) (auto split: option.splits)

lemma blob_rows_Both: "map blob_rows (pre @ Both b es # post) = map blob_rows (pre @ V2 b # post)"
  by (simp add: blob_rows_simps)

text \<open>
  C10: a blob with an array \<^verbatim>\<open>seq\<close> and an array \<^verbatim>\<open>e\<close> passes the first test, \<^verbatim>\<open>isV2\<close>,
  in both operations; they treat it as the Tier-2 blob of its fields, whatever \<^verbatim>\<open>e\<close> holds
  and wherever the blob stands in the document.
\<close>

theorem C10_seq_before_e:
  "isV2 (Both b es) = Some b
   \<and> expandCompact lc (Many (pre @ Both b es # post)) = expandCompact lc (Many (pre @ V2 b # post))
   \<and> expandCompact lc (Single (Both b es)) = expandCompact lc (Single (V2 b))
   \<and> queryOneCompact (Many (pre @ Both b es # post)) x y
       = queryOneCompact (Many (pre @ V2 b # post)) x y
   \<and> queryOneCompact (Single (Both b es)) x y = queryOneCompact (Single (V2 b)) x y"
  using query_loop_append_Both [of pre b es post x y]
  by (simp add: expandCompact_eq to_array_def queryOneCompact_def blob_rows_simps)

theorem C10_seq_before_e_witness:
  "expandCompact codepoint_collation
     (Single (Both \<lparr>v2_c = 1, v2_n = ''A'', v2_id = 9, v2_y = 5, v2_s = 2,
                    v2_seq = [\<lparr>run_x0 = 0, run_k = 1, run_id0 = 1, run_n0 = 1\<rparr>]\<rparr>
                   [\<lparr>e_id = 8, e_n = 8, e_y = 7, e_xs = 10, e_xe = 12\<rparr>]))
   = Inr [sample_row 1 1 0 5, sample_row 1 1 1 5]
   \<and> queryOneCompact
     (Single (Both \<lparr>v2_c = 1, v2_n = ''A'', v2_id = 9, v2_y = 5, v2_s = 2,
                    v2_seq = [\<lparr>run_x0 = 0, run_k = 1, run_id0 = 1, run_n0 = 1\<rparr>]\<rparr>
                   [\<lparr>e_id = 8, e_n = 8, e_y = 7, e_xs = 10, e_xe = 12\<rparr>])) 11 7
   = None"
proof -
  let ?b = "\<lparr>v2_c = 1, v2_n = ''A'', v2_id = 9, v2_y = 5, v2_s = 2,
             v2_seq = [\<lparr>run_x0 = 0, run_k = 1, run_id0 = 1, run_n0 = 1\<rparr>]\<rparr>"
  let ?es = "[\<lparr>e_id = 8, e_n = 8, e_y = 7, e_xs = 10, e_xe = 12\<rparr>]"
  have e: "expandCompact codepoint_collation (Single (V2 ?b)) = Inr [sample_row 1 1 0 5, sample_row 1 1 1 5]"
    by code_simp
  have q: "queryOneCompact (Single (V2 ?b)) 11 7 = None"
    by code_simp
  from C10_seq_before_e [of ?b ?es codepoint_collation "[]" "[]" 11 7]
  have "expandCompact codepoint_collation (Single (Both ?b ?es)) = expandCompact codepoint_collation (Single (V2 ?b))"
    and "queryOneCompact (Single (Both ?b ?es)) 11 7 = queryOneCompact (Single (V2 ?b)) 11 7"
    by blast+
  with e q show ?thesis by simp
qed

section \<open>Unknown blob shapes\<close>

lemma expandCompact_Other:
  "Other \<in> set (to_array compact) \<Longrightarrow> expandCompact lc compact = Inl UnknownShape"
  by (simp add: expandCompact_eq)

lemma query_loop_skips_Other:
  "query_loop (filter (\<lambda>blob. blob \<noteq> Other) arr) x y = query_loop arr x y"
proof (induction arr)
  case Nil
  then show ?case by simp
next
  case (Cons blob arr)
  then show ?case by (cases blob) (auto split: option.splits)
qed

text \<open>
  C9, at a document that is a single blob of unknown shape, and at one with such a blob
  before a Tier-1 blob: \<^verbatim>\<open>expandCompact\<close> throws, whatever the collation,
  \<^verbatim>\<open>queryOneCompact\<close> does not; it returns
  \<^verbatim>\<open>null\<close> for the first and the hit of the Tier-1 blob for the second.
\<close>

theorem C9_query_skips_unknown:
  "expandCompact lc (Single Other) = Inl UnknownShape
   \<and> queryOneCompact (Single Other) 0 0 = None
   \<and> expandCompact lc
        (Many [Other, V1 \<lparr>v1_c = 1, v1_n = ''A'', v1_id = 9,
                          v1_e = [\<lparr>e_id = 1, e_n = 1, e_y = 5, e_xs = 0, e_xe = 3\<rparr>]\<rparr>])
       = Inl UnknownShape
   \<and> queryOneCompact
        (Many [Other, V1 \<lparr>v1_c = 1, v1_n = ''A'', v1_id = 9,
                          v1_e = [\<lparr>e_id = 1, e_n = 1, e_y = 5, e_xs = 0, e_xe = 3\<rparr>]\<rparr>]) 2 5
       = Some \<lparr>h_cityId = 1, h_name = ''A'', h_countryId = 9, h_id = 1, h_number = 1,
               h_y = 5, h_xs = 0, h_xe = 3, h_format = ''V1''\<rparr>"
  by (simp add: expandCompact_def queryOneCompact_def to_array_def)

section \<open>Query and decode\<close>























section \<open>The resolver against the decoder\<close>




section \<open>The groups that the first loop builds\<close>











section \<open>Independence of the input order\<close>















section \<open>Rows that lack a field\<close>

lemma add_row_js_Inl: "(add_row_js groups r = Inl err) = (j_coord r = None \<and> err = TypeError)"
  by (auto simp: add_row_js_def Let_def split: option.splits)

lemma add_row_js_keys:
  assumes "add_row_js groups r = Inr groups'"
  shows "fst ` set groups' = insert (metaKey_js r) (fst ` set groups)"
proof -
  from assms obtain v where "groups' = AList.update (metaKey_js r) v groups"
    by (auto simp: add_row_js_def Let_def split: option.splits)
  then show ?thesis by (simp add: dom_update)
qed

lemma group_loop_js_Inl:
  "\<exists>r \<in> set rows. j_coord r = None \<Longrightarrow> group_loop_js groups rows = Inl TypeError"
proof (induction rows arbitrary: groups)
  case Nil
  then show ?case by simp
next
  case (Cons r rows)
  show ?case
  proof (cases "add_row_js groups r")
    case (Inl err)
    then have "err = TypeError" by (simp add: add_row_js_Inl)
    with Inl show ?thesis by simp
  next
    case (Inr groups')
    then have "j_coord r \<noteq> None"
      by (auto simp: add_row_js_def Let_def split: option.splits)
    with Cons.prems have "\<exists>r \<in> set rows. j_coord r = None" by auto
    from Cons.IH [OF this] Inr show ?thesis by simp
  qed
qed

lemma group_loop_js_Inr:
  "\<forall>r \<in> set rows. j_coord r \<noteq> None \<Longrightarrow>
   \<exists>groups'. group_loop_js groups rows = Inr groups'
     \<and> fst ` set groups' = fst ` set groups \<union> metaKey_js ` set rows"
proof (induction rows arbitrary: groups)
  case Nil
  then show ?case by simp
next
  case (Cons r rows)
  from Cons.prems have c: "j_coord r \<noteq> None" and rest: "\<forall>r \<in> set rows. j_coord r \<noteq> None"
    by simp_all
  have "\<exists>g1. add_row_js groups r = Inr g1"
  proof (cases "add_row_js groups r")
    case (Inl err)
    then have "j_coord r = None" by (simp add: add_row_js_Inl)
    with c show ?thesis by simp
  next
    case (Inr g1)
    then show ?thesis by simp
  qed
  then obtain g1 where g1: "add_row_js groups r = Inr g1" ..
  from Cons.IH [OF rest, of g1] obtain g2 where g2: "group_loop_js g1 rows = Inr g2"
    and k: "fst ` set g2 = fst ` set g1 \<union> metaKey_js ` set rows"
    by (elim exE conjE)
  have "fst ` set g2 = fst ` set groups \<union> metaKey_js ` set (r # rows)"
    unfolding k add_row_js_keys [OF g1] by simp
  with g1 g2 show ?case by simp
qed

text \<open>
  C8 as stated fails: nothing checks the rows before the grouping loop, and the loop does
  not fail on a row without \<^verbatim>\<open>name\<close>: it runs to its end and has built a group from that
  row, under the key \<^verbatim>\<open>1|undefined|9\<close>.
\<close>

theorem C8_counterexample:
  "group_loop_js []
     [\<lparr>j_id = Some 1, j_cityId = Some 1, j_name = None, j_number = Some 1,
       j_countryId = Some 9, j_coord = Some \<lparr>j_tileX = Some 0, j_tileY = Some 5\<rparr>\<rparr>]
   = Inr [(''1|undefined|9'',
           \<lparr>jg_c = Some 1, jg_n = None, jg_id = Some 9,
            jg_bucket = [(''1|1|5'', [Some 0])]\<rparr>)]"
  by code_simp

text \<open>
  C8, amended: the encode path checks no field before it groups. The grouping loop throws
  (a \<^verbatim>\<open>TypeError\<close>, from reading \<^verbatim>\<open>coord.tileY\<close>) when the input holds a row without
  \<^verbatim>\<open>coord\<close>, and then returns no group; when every row has a \<^verbatim>\<open>coord\<close> it throws
  nothing, whatever other fields are missing, and every row is in a group.
\<close>

theorem C8_grouping_failure:
  "((\<exists>r \<in> set rows. j_coord r = None) \<longrightarrow> group_loop_js [] rows = Inl TypeError)
   \<and> ((\<forall>r \<in> set rows. j_coord r \<noteq> None)
        \<longrightarrow> (\<exists>groups. group_loop_js [] rows = Inr groups
               \<and> fst ` set groups = metaKey_js ` set rows))"
proof (intro conjI impI)
  assume "\<exists>r \<in> set rows. j_coord r = None"
  then show "group_loop_js [] rows = Inl TypeError"
    by (rule group_loop_js_Inl)
next
  assume "\<forall>r \<in> set rows. j_coord r \<noteq> None"
  from group_loop_js_Inr [OF this, of "[]"]
  show "\<exists>groups. group_loop_js [] rows = Inr groups \<and> fst ` set groups = metaKey_js ` set rows"
    by simp
qed

theorem C8_grouping_failure_witness:
  "group_loop_js []
     [\<lparr>j_id = Some 1, j_cityId = Some 1, j_name = Some ''A'', j_number = Some 1,
       j_countryId = Some 9, j_coord = Some \<lparr>j_tileX = Some 0, j_tileY = Some 5\<rparr>\<rparr>,
      \<lparr>j_id = Some 2, j_cityId = Some 1, j_name = Some ''A'', j_number = Some 2,
       j_countryId = Some 9, j_coord = None\<rparr>]
   = Inl TypeError
   \<and> (\<exists>groups. group_loop_js []
        [\<lparr>j_id = None, j_cityId = Some 1, j_name = Some ''A'', j_number = Some 1,
          j_countryId = None, j_coord = Some \<lparr>j_tileX = Some 0, j_tileY = None\<rparr>\<rparr>]
        = Inr groups)"
proof -
  let ?a = "\<lparr>j_id = Some 1, j_cityId = Some 1, j_name = Some ''A'', j_number = Some 1,
             j_countryId = Some 9, j_coord = Some \<lparr>j_tileX = Some 0, j_tileY = Some 5\<rparr>\<rparr>"
  let ?b = "\<lparr>j_id = Some 2, j_cityId = Some 1, j_name = Some ''A'', j_number = Some 2,
             j_countryId = Some 9, j_coord = None\<rparr>"
  let ?c = "\<lparr>j_id = None, j_cityId = Some 1, j_name = Some ''A'', j_number = Some 1,
             j_countryId = None, j_coord = Some \<lparr>j_tileX = Some 0, j_tileY = None\<rparr>\<rparr>"
  have h1: "\<exists>r \<in> set [?a, ?b]. j_coord r = None" by simp
  have h2: "\<forall>r \<in> set [?c]. j_coord r \<noteq> None" by simp
  from C8_grouping_failure [of "[?a, ?b]"] h1 have "group_loop_js [] [?a, ?b] = Inl TypeError"
    by blast
  moreover from C8_grouping_failure [of "[?c]"] h2 have "\<exists>groups. group_loop_js [] [?c] = Inr groups"
    by blast
  ultimately show ?thesis by (intro conjI)
qed

section \<open>The key texts determine the keys\<close>

lemma digit_inj:
  "a < 10 \<Longrightarrow> b < 10 \<Longrightarrow> (''0123456789'' ! a = ''0123456789'' ! b) = (a = b)"
  by (rule nth_eq_iff_index_eq) simp_all

lemma digit_in: "a < 10 \<Longrightarrow> ''0123456789'' ! a \<in> set ''0123456789''"
  by (rule nth_mem) simp

lemma show_nat_small: "n < 10 \<Longrightarrow> show_nat n = [''0123456789'' ! n]"
  by (subst show_nat.simps) simp

lemma show_nat_big:
  "\<not> n < 10 \<Longrightarrow> show_nat n = show_nat (n div 10) @ [''0123456789'' ! (n mod 10)]"
  by (subst show_nat.simps) simp

lemma show_nat_digits: "set (show_nat n) \<subseteq> set ''0123456789''"
proof (induction n rule: show_nat.induct)
  case (1 n)
  show ?case
  proof (cases "n < 10")
    case True
    with digit_in [of n] show ?thesis by (simp only: show_nat_small) simp
  next
    case False
    have "n mod 10 < 10" by simp
    from digit_in [OF this] "1.IH" [OF False] show ?thesis
      by (simp only: show_nat_big [OF False]) simp
  qed
qed

lemma show_nat_not_Nil: "show_nat n \<noteq> []"
  by (cases "n < 10") (simp_all add: show_nat_small show_nat_big)

lemma length_show_nat_big: "\<not> n < 10 \<Longrightarrow> 2 \<le> length (show_nat n)"
proof -
  assume b: "\<not> n < 10"
  obtain c cs where "show_nat (n div 10) = c # cs"
    using show_nat_not_Nil [of "n div 10"] by (cases "show_nat (n div 10)") auto
  then show ?thesis by (simp add: show_nat_big [OF b])
qed

lemma show_nat_inj: "show_nat m = show_nat n \<Longrightarrow> m = n"
proof (induction m arbitrary: n rule: show_nat.induct)
  case (1 m)
  show ?case
  proof (cases "m < 10")
    case True
    then have lm: "length (show_nat m) = 1" by (simp add: show_nat_small)
    have n: "n < 10"
    proof (rule ccontr)
      assume "\<not> n < 10"
      from length_show_nat_big [OF this] lm "1.prems" show False by simp
    qed
    from "1.prems" have "''0123456789'' ! m = ''0123456789'' ! n"
      by (simp add: show_nat_small True n)
    with True n show ?thesis by (simp only: digit_inj)
  next
    case False
    have n: "\<not> n < 10"
    proof
      assume "n < 10"
      then have "length (show_nat n) = 1" by (simp add: show_nat_small)
      with length_show_nat_big [OF False] "1.prems" show False by simp
    qed
    from "1.prems" have e: "show_nat (m div 10) = show_nat (n div 10)"
      and d: "''0123456789'' ! (m mod 10) = ''0123456789'' ! (n mod 10)"
      by (simp_all add: show_nat_big False n)
    from "1.IH" [OF False e] have q: "m div 10 = n div 10" .
    have "m mod 10 < 10" and "n mod 10 < 10" by simp_all
    with d have r: "m mod 10 = n mod 10" by (simp only: digit_inj)
    have "m = m div 10 * 10 + m mod 10" by simp
    also have "\<dots> = n div 10 * 10 + n mod 10" by (simp only: q r)
    also have "\<dots> = n" by simp
    finally show ?thesis .
  qed
qed

lemma bar_notin_show_nat: "CHR ''|'' \<notin> set (show_nat n)"
proof
  assume "CHR ''|'' \<in> set (show_nat n)"
  with show_nat_digits have "CHR ''|'' \<in> set ''0123456789''" by (rule subsetD)
  then show False by simp
qed

lemma bar_notin_show_int: "CHR ''|'' \<notin> set (show_int i)"
  by (cases "i < 0") (simp_all add: show_int_def bar_notin_show_nat)

lemma hd_show_nat: "hd (show_nat n) \<noteq> CHR ''-''"
proof
  assume e: "hd (show_nat n) = CHR ''-''"
  have "hd (show_nat n) \<in> set (show_nat n)"
    using show_nat_not_Nil by (rule hd_in_set)
  with show_nat_digits have "hd (show_nat n) \<in> set ''0123456789''" by (rule subsetD)
  then show False unfolding e by simp
qed

lemma show_int_inj: "show_int i = show_int j \<Longrightarrow> i = j"
proof -
  assume e: "show_int i = show_int j"
  show ?thesis
  proof (cases "i < 0")
    case True
    show ?thesis
    proof (cases "j < 0")
      case j: True
      with True e have "show_nat (nat (- i)) = show_nat (nat (- j))"
        by (simp add: show_int_def)
      then have "nat (- i) = nat (- j)" by (rule show_nat_inj)
      with True j show ?thesis by simp
    next
      case j: False
      with True e have "show_nat (nat j) = CHR ''-'' # show_nat (nat (- i))"
        by (simp add: show_int_def)
      then have "hd (show_nat (nat j)) = CHR ''-''" by simp
      with hd_show_nat show ?thesis by blast
    qed
  next
    case False
    show ?thesis
    proof (cases "j < 0")
      case j: True
      with False e have "show_nat (nat i) = CHR ''-'' # show_nat (nat (- j))"
        by (simp add: show_int_def)
      then have "hd (show_nat (nat i)) = CHR ''-''" by simp
      with hd_show_nat show ?thesis by blast
    next
      case j: False
      with False e have "show_nat (nat i) = show_nat (nat j)"
        by (simp add: show_int_def)
      then have "nat i = nat j" by (rule show_nat_inj)
      with False j show ?thesis by simp
    qed
  qed
qed

lemma split_at_first:
  assumes "a @ x # r = a' @ x # r'" and "x \<notin> set a" and "x \<notin> set a'"
  shows "a = a' \<and> r = r'"
proof -
  have t: "takeWhile (\<lambda>c. c \<noteq> x) (b @ x # q) = b" if "x \<notin> set b" for b q
  proof -
    from that have "\<And>c. c \<in> set b \<Longrightarrow> c \<noteq> x" by auto
    then have "takeWhile (\<lambda>c. c \<noteq> x) (b @ x # q) = b @ takeWhile (\<lambda>c. c \<noteq> x) (x # q)"
      by (rule takeWhile_append2)
    then show ?thesis by simp
  qed
  from t [OF assms(2), of r] t [OF assms(3), of r'] have "a = a'"
    by (simp only: assms(1))
  with assms(1) show ?thesis by simp
qed

lemma split_at_last:
  assumes "m @ x # t = m' @ x # t'" and "x \<notin> set t" and "x \<notin> set t'"
  shows "m = m' \<and> t = t'"
proof -
  from assms(1) have "rev (m @ x # t) = rev (m' @ x # t')" by simp
  then have "rev t @ x # rev m = rev t' @ x # rev m'" by simp
  from split_at_first [OF this] assms(2,3) show ?thesis by simp
qed

lemma metaKey_text_inj: "metaKey_text mk = metaKey_text mk' \<Longrightarrow> mk = mk'"
proof -
  obtain c n cid where mk: "mk = (c, n, cid)" by (cases mk) auto
  obtain c' n' cid' where mk': "mk' = (c', n', cid')" by (cases mk') auto
  assume "metaKey_text mk = metaKey_text mk'"
  then have e: "show_int c @ CHR ''|'' # (n @ CHR ''|'' # show_int cid)
                = show_int c' @ CHR ''|'' # (n' @ CHR ''|'' # show_int cid')"
    by (simp add: metaKey_text_def mk mk')
  from split_at_first [OF e bar_notin_show_int bar_notin_show_int]
  have 1: "show_int c = show_int c'"
    and 2: "n @ CHR ''|'' # show_int cid = n' @ CHR ''|'' # show_int cid'"
    by simp_all
  from split_at_last [OF 2 bar_notin_show_int bar_notin_show_int]
  have "n = n'" and "show_int cid = show_int cid'" by simp_all
  with 1 show ?thesis
    by (simp add: mk mk' show_int_inj)
qed

lemma subKey_text_inj: "subKey_text sk = subKey_text sk' \<Longrightarrow> sk = sk'"
proof -
  obtain a b c where sk: "sk = (a, b, c)" by (cases sk) auto
  obtain a' b' c' where sk': "sk' = (a', b', c')" by (cases sk') auto
  assume "subKey_text sk = subKey_text sk'"
  then have e: "show_int a @ CHR ''|'' # (show_int b @ CHR ''|'' # show_int c)
                = show_int a' @ CHR ''|'' # (show_int b' @ CHR ''|'' # show_int c')"
    by (simp add: subKey_text_def sk sk')
  from split_at_first [OF e bar_notin_show_int bar_notin_show_int]
  have 1: "show_int a = show_int a'"
    and 2: "show_int b @ CHR ''|'' # show_int c = show_int b' @ CHR ''|'' # show_int c'"
    by simp_all
  from split_at_first [OF 2 bar_notin_show_int bar_notin_show_int]
  have "show_int b = show_int b'" and "show_int c = show_int c'" by simp_all
  with 1 show ?thesis
    by (simp add: sk sk' show_int_inj)
qed

section \<open>The text keys and the keys of the model\<close>

lemma map_of_map_key:
  assumes "inj f"
  shows "map_of (map (\<lambda>p. (f (fst p), h (snd p))) al) (f k) = map_option h (map_of al k)"
  using assms by (induction al) (auto simp: inj_eq)

lemma update_map_key:
  assumes "inj f"
  shows "AList.update (f k) (h v) (map (\<lambda>p. (f (fst p), h (snd p))) al)
         = map (\<lambda>p. (f (fst p), h (snd p))) (AList.update k v al)"
  using assms by (induction al) (auto simp: inj_eq)

lemma inj_metaKey_text: "inj metaKey_text"
  by (rule injI) (rule metaKey_text_inj)

lemma inj_subKey_text: "inj subKey_text"
  by (rule injI) (rule subKey_text_inj)

lemma metaKey_js_to_js: "metaKey_js (to_js r) = metaKey_text (metaKey_of r)"
  by (simp add: metaKey_js_def to_js_def metaKey_text_def metaKey_of_def num_text_def str_text_def)

lemma group_js_eq: "group_js = (\<lambda>p. (metaKey_text (fst p), Group_js (snd p)))"
  by (rule ext) (simp add: group_js_def)

lemma bucket_js_update:
  "AList.update (subKey_text sk)
     ((case map_of (bucket_js b) (subKey_text sk) of Some a \<Rightarrow> a | None \<Rightarrow> []) @ [Some x])
     (bucket_js b)
   = bucket_js (AList.update sk ((case map_of b sk of Some a \<Rightarrow> a | None \<Rightarrow> []) @ [x]) b)"
proof -
  have "(case map_of (bucket_js b) (subKey_text sk) of Some a \<Rightarrow> a | None \<Rightarrow> []) @ [Some x]
        = map Some ((case map_of b sk of Some a \<Rightarrow> a | None \<Rightarrow> []) @ [x])"
    unfolding bucket_js_def map_of_map_key [OF inj_subKey_text]
    by (cases "map_of b sk") simp_all
  then show ?thesis
    unfolding bucket_js_def by (simp only: update_map_key [OF inj_subKey_text])
qed

lemma add_row_js_to_js:
  "add_row_js (map group_js groups) (to_js r) = Inr (map group_js (add_row groups r))"
proof -
  let ?mk = "metaKey_of r"
  let ?sk = "subKey_of r"
  let ?x = "tileX (r_coord r)"
  let ?fresh = "\<lparr>g_c = r_cityId r, g_n = r_name r, g_id = r_countryId r, bucket = []\<rparr>"
  let ?g = "case map_of groups ?mk of Some g \<Rightarrow> g | None \<Rightarrow> ?fresh"
  have key: "num_text (j_id (to_js r)) @ ''|'' @ num_text (j_number (to_js r)) @ ''|''
               @ num_text (Some (tileY (r_coord r)))
             = subKey_text ?sk"
    by (simp add: to_js_def subKey_text_def subKey_of_def num_text_def)
  have g: "(case map_of (map group_js groups) (metaKey_text ?mk) of
              Some g \<Rightarrow> g
            | None \<Rightarrow> \<lparr>jg_c = j_cityId (to_js r), jg_n = j_name (to_js r),
                        jg_id = j_countryId (to_js r), jg_bucket = []\<rparr>)
           = Group_js ?g"
    unfolding group_js_eq map_of_map_key [OF inj_metaKey_text]
    by (cases "map_of groups ?mk") (simp_all add: Group_js_def bucket_js_def to_js_def)
  have u: "Group_js ?g\<lparr>jg_bucket := AList.update (subKey_text ?sk)
               ((case map_of (jg_bucket (Group_js ?g)) (subKey_text ?sk) of
                   Some a \<Rightarrow> a | None \<Rightarrow> []) @ [Some ?x])
               (jg_bucket (Group_js ?g))\<rparr>
           = Group_js (?g\<lparr>bucket := AList.update ?sk
               ((case map_of (bucket ?g) ?sk of Some a \<Rightarrow> a | None \<Rightarrow> []) @ [?x])
               (bucket ?g)\<rparr>)"
    using bucket_js_update [of ?sk "bucket ?g" ?x] by (simp add: Group_js_def)
  have c: "j_coord (to_js r) = Some \<lparr>j_tileX = Some ?x, j_tileY = Some (tileY (r_coord r))\<rparr>"
    by (simp add: to_js_def)
  have "add_row_js (map group_js groups) (to_js r)
        = Inr (AList.update (metaKey_text ?mk)
            (Group_js (?g\<lparr>bucket := AList.update ?sk
               ((case map_of (bucket ?g) ?sk of Some a \<Rightarrow> a | None \<Rightarrow> []) @ [?x])
               (bucket ?g)\<rparr>))
            (map group_js groups))"
    unfolding add_row_js_def Let_def metaKey_js_to_js c option.case g
    using key u by simp
  also have "\<dots> = Inr (map group_js (add_row groups r))"
    unfolding group_js_eq update_map_key [OF inj_metaKey_text]
    by (simp add: add_row_def Let_def)
  finally show ?thesis .
qed

text \<open>
  On rows that have every field, the loop with the text keys builds the groups of the
  model, in the same order, each under the text of its key.
\<close>

lemma group_loop_js_to_js:
  "group_loop_js (map group_js groups) (map to_js rows)
   = Inr (map group_js (foldl add_row groups rows))"
  by (induction rows arbitrary: groups) (simp_all add: add_row_js_to_js)

section \<open>Reading the sub-key back\<close>

lemma split_bar_not_Nil: "split_bar s \<noteq> []"
  by (induction s) (simp_all split: list.splits)

lemma split_bar_no_bar: "CHR ''|'' \<notin> set a \<Longrightarrow> split_bar a = [a]"
  by (induction a) (auto split: list.splits)

lemma split_bar_append:
  "CHR ''|'' \<notin> set a \<Longrightarrow> split_bar (a @ CHR ''|'' # r) = a # split_bar r"
proof (induction a)
  case Nil
  then show ?case by simp
next
  case (Cons c a)
  then show ?case by (auto split: list.splits)
qed

lemma takeWhile_nth_distinct:
  "distinct xs \<Longrightarrow> k < length xs \<Longrightarrow> length (takeWhile (\<lambda>d. d \<noteq> xs ! k) xs) = k"
proof (induction xs arbitrary: k)
  case Nil
  then show ?case by simp
next
  case (Cons x xs)
  show ?case
  proof (cases k)
    case 0
    then show ?thesis by simp
  next
    case (Suc j)
    with Cons.prems have j: "j < length xs" and d: "distinct xs" and x: "x \<notin> set xs"
      by simp_all
    from j x have "x \<noteq> xs ! j" by (metis nth_mem)
    with Cons.IH [OF d j] Suc show ?thesis by simp
  qed
qed

lemma digit_val_digit: "k < 10 \<Longrightarrow> digit_val (''0123456789'' ! k) = k"
  unfolding digit_val_def by (rule takeWhile_nth_distinct) simp_all

lemma read_nat_show_nat: "read_nat (show_nat n) = n"
proof (induction n rule: show_nat.induct)
  case (1 n)
  show ?case
  proof (cases "n < 10")
    case True
    then show ?thesis
      by (simp add: show_nat_small read_nat_def digit_val_digit)
  next
    case False
    have "n mod 10 < 10" by simp
    then have d: "digit_val (''0123456789'' ! (n mod 10)) = n mod 10"
      by (rule digit_val_digit)
    from "1.IH" [OF False] have "read_nat (show_nat (n div 10)) = n div 10" .
    then have "read_nat (show_nat n) = 10 * (n div 10) + n mod 10"
      by (simp add: show_nat_big [OF False] read_nat_def d)
    then show ?thesis by simp
  qed
qed

lemma number_of_show_int: "number_of (show_int i) = i"
proof (cases "i < 0")
  case True
  then show ?thesis
    by (simp add: show_int_def number_of_def read_nat_show_nat)
next
  case False
  obtain c cs where s: "show_nat (nat i) = c # cs"
    using show_nat_not_Nil [of "nat i"] by (cases "show_nat (nat i)") auto
  with hd_show_nat [of "nat i"] have "c \<noteq> CHR ''-''" by simp
  with False s read_nat_show_nat [of "nat i"] show ?thesis
    by (simp add: show_int_def number_of_def)
qed

text \<open>
  What lines 119 to 122 read from the text of a sub-key is the sub-key: the model of
  \<^verbatim>\<open>rowsToV1\<close> keeps the three numbers instead of printing and reading them.
\<close>

lemma number_of_split_subKey_text:
  "map number_of (split_bar (subKey_text (rid, n, y))) = [rid, n, y]"
proof -
  have "split_bar (subKey_text (rid, n, y)) = [show_int rid, show_int n, show_int y]"
    by (simp add: subKey_text_def split_bar_append split_bar_no_bar bar_notin_show_int)
  then show ?thesis by (simp add: number_of_show_int)
qed

end
